theory Spec2Isabelle
  imports Main
begin

section \<open>Data model of the room walker\<close>

text \<open>
  The walker script keeps two globals, the object \<open>rooms\<close> (the cache) and the array
  \<open>trail\<close>, and drives a remote service through \<open>fetch\<close>. Room identifiers are the
  property keys of \<open>rooms\<close>, hence strings. The fields \<open>pos\<close> and \<open>col\<close> of a room
  are used by \<open>paint\<close> only; they are kept together in the opaque field \<open>geom\<close>.
\<close>

type_synonym room_id = string

record 'g room =
  xid :: room_id
  see :: "room_id list"
  geom :: 'g

text \<open>A value of \<open>rooms\<close>: the sentinel \<open>UNKNOWN\<close> (\<open>true\<close>) or a fetched room.\<close>

datatype 'g cell = UNKNOWN | Known "'g room"

text \<open>
  \<open>rooms\<close> is a plain object \<open>{}\<close>. Reading \<open>rooms[x]\<close> gives the property the script
  has written, if there is one; otherwise, for a name that a plain object inherits from
  \<open>Object.prototype\<close>, the inherited value (a function, or the prototype itself for
  \<open>__proto__\<close>), which is neither \<open>undefined\<close> nor \<open>true\<close>; otherwise \<open>undefined\<close>.
\<close>

definition proto_names :: "room_id list" where
  "proto_names =
     [''constructor'', ''hasOwnProperty'', ''isPrototypeOf'', ''propertyIsEnumerable'',
      ''toLocaleString'', ''toString'', ''valueOf'', ''__proto__'',
      ''__defineGetter__'', ''__defineSetter__'', ''__lookupGetter__'', ''__lookupSetter__'']"

datatype 'g slot = Undefined | Inherited | Own "'g cell"

definition get_room :: "(room_id \<rightharpoonup> 'g cell) \<Rightarrow> room_id \<Rightarrow> 'g slot" where
  "get_room rs x =
     (case rs x of
        Some c \<Rightarrow> Own c
      | None \<Rightarrow> if x \<in> set proto_names then Inherited else Undefined)"

text \<open>
  An element of \<open>trail\<close>: \<open>cache\<close> pushes the bare identifier \<open>room.xid\<close>, the main
  loop pushes the whole record \<open>current\<close>.
\<close>

datatype 'g entry = Id room_id | Rec "'g room"

text \<open>The values that flow through the promise chains.\<close>

datatype 'g jsval = JUndefined | JNull | JRoom "'g room"

datatype error = SyntaxError | TypeError

datatype http_method = GET | PUT

datatype credentials = Omit | Include

text \<open>The configuration object built by \<open>init\<close>; \<open>body\<close> is the payload \<open>{xid: xid}\<close>.\<close>

record fetch_init =
  credentials :: credentials
  http_method :: http_method
  body :: "room_id option"
  headers :: "(string \<times> string) list"

text \<open>
  What \<open>fetch\<close> can deliver: a response with \<open>r.ok\<close> and its text, a response that is
  not ok with its status, or a rejection (network error, no \<open>status\<close> property).
  The text of an ok response is JSON for a room, the JSON \<open>null\<close>, or no JSON at all.
\<close>

datatype 'g body = BodyRoom "'g room" | BodyNull | BodyGarbage

datatype 'g response = Ok "'g body" | NotOk nat | NetworkError

type_synonym ('s, 'g) service = "'s \<Rightarrow> fetch_init \<Rightarrow> 'g response \<times> 's"

text \<open>The messages passed to \<open>alert\<close>.\<close>

datatype alert = AlertNotFound | AlertFailed http_method "room_id option" "nat option"

text \<open>
  The globals, the observable effects (alerts raised, rooms painted, requests sent) and
  the state of the remote service.
\<close>

record ('s, 'g) state =
  rooms :: "room_id \<rightharpoonup> 'g cell"
  trail :: "'g entry list"
  alerts :: "alert list"
  painted :: "'g room list"
  requests :: "fetch_init list"
  server :: 's

definition init_state :: "'s \<Rightarrow> ('s, 'g) state" where
  "init_state s0 = \<lparr>rooms = Map.empty, trail = [], alerts = [], painted = [],
     requests = [], server = s0\<rparr>"

section \<open>The request pipeline\<close>

definition init :: "http_method \<Rightarrow> room_id option \<Rightarrow> bool \<Rightarrow> fetch_init" where
  "init m data reset =
     \<lparr>credentials = (if reset then Omit else Include),
      http_method = m,
      body = data,
      headers = (if data \<noteq> None then [(''Content-Type'', ''application/json'')] else [])\<rparr>"

text \<open>\<open>JSON.parse\<close>; its argument is \<open>undefined\<close> (\<open>None\<close>) after the catch handler.\<close>

definition JSON_parse :: "'g body option \<Rightarrow> error + 'g jsval" where
  "JSON_parse t =
     (case t of
        None \<Rightarrow> Inl SyntaxError
      | Some BodyGarbage \<Rightarrow> Inl SyntaxError
      | Some BodyNull \<Rightarrow> Inr JNull
      | Some (BodyRoom r) \<Rightarrow> Inr (JRoom r))"

definition req ::
  "('s, 'g) service \<Rightarrow> http_method \<Rightarrow> room_id option \<Rightarrow> bool \<Rightarrow> ('s, 'g) state
     \<Rightarrow> (error + 'g jsval) \<times> ('s, 'g) state" where
  "req srv m data reset st =
     (let rq = init m data reset;
          answer = srv (server st) rq;
          st1 = st\<lparr>requests := requests st @ [rq], server := snd answer\<rparr>
      in case fst answer of
           Ok b \<Rightarrow> (JSON_parse (Some b), st1)
         | NotOk status \<Rightarrow>
             (JSON_parse None,
              st1\<lparr>alerts := alerts st1 @
                 [if status = 404 then AlertNotFound else AlertFailed m data (Some status)]\<rparr>)
         | NetworkError \<Rightarrow>
             (JSON_parse None, st1\<lparr>alerts := alerts st1 @ [AlertFailed m data None]\<rparr>))"

text \<open>\<open>p.then(f)\<close>: a rejected promise skips \<open>f\<close>; an exception in \<open>f\<close> rejects.\<close>

definition and_then ::
  "(error + 'a) \<times> 'st \<Rightarrow> ('a \<Rightarrow> 'st \<Rightarrow> error + ('b \<times> 'st)) \<Rightarrow> (error + 'b) \<times> 'st" where
  "and_then p f =
     (case fst p of
        Inl e \<Rightarrow> (Inl e, snd p)
      | Inr v \<Rightarrow> (case f v (snd p) of
                   Inl e \<Rightarrow> (Inl e, snd p)
                 | Inr (w, st') \<Rightarrow> (Inr w, st')))"

section \<open>The cache\<close>

definition remember :: "room_id \<Rightarrow> ('s, 'g) state \<Rightarrow> ('s, 'g) state" where
  "remember x st =
     (if get_room (rooms st) x = Undefined then st\<lparr>rooms := (rooms st)(x \<mapsto> UNKNOWN)\<rparr>
      else st)"

definition truthy :: "'g jsval \<Rightarrow> bool" where
  "truthy v = (case v of JRoom r \<Rightarrow> True | _ \<Rightarrow> False)"

text \<open>The property access \<open>room.xid\<close>: a TypeError on \<open>undefined\<close> and \<open>null\<close>.\<close>

definition get_xid :: "'g jsval \<Rightarrow> error + room_id" where
  "get_xid v = (case v of JRoom r \<Rightarrow> Inr (xid r) | _ \<Rightarrow> Inl TypeError)"

text \<open>
  The condition \<open>room && rooms[room.xid] === undefined || rooms[room.xid] === UNKNOWN\<close>,
  parsed as \<open>(room && A) || B\<close> and evaluated left to right with short circuit.
\<close>

definition cache_guard :: "'g jsval \<Rightarrow> (room_id \<rightharpoonup> 'g cell) \<Rightarrow> error + bool" where
  "cache_guard v rs =
     (case (if truthy v then map_sum id (\<lambda>x. get_room rs x = Undefined) (get_xid v) else Inr False) of
        Inl e \<Rightarrow> Inl e
      | Inr True \<Rightarrow> Inr True
      | Inr False \<Rightarrow> map_sum id (\<lambda>x. get_room rs x = Own UNKNOWN) (get_xid v))"

definition cache :: "'g jsval \<Rightarrow> ('s, 'g) state \<Rightarrow> error + ('g jsval \<times> ('s, 'g) state)" where
  "cache v st =
     (case cache_guard v (rooms st) of
        Inl e \<Rightarrow> Inl e
      | Inr False \<Rightarrow> Inr (v, st)
      | Inr True \<Rightarrow>
          (case v of
             JRoom r \<Rightarrow>
               Inr (v, foldl (\<lambda>s x. remember x s)
                         (st\<lparr>trail := trail st @ [Id (xid r)],
                             rooms := (rooms st)(xid r \<mapsto> Known r)\<rparr>)
                         (see r))
           | _ \<Rightarrow> Inl TypeError))"

section \<open>Painting, fetching and moving\<close>

text \<open>
  \<open>paint\<close> appends a polygon for the room to the canvas; the canvas is represented by
  the list of rooms painted so far.
\<close>

definition paint :: "'g jsval \<Rightarrow> ('s, 'g) state \<Rightarrow> error + ('g jsval \<times> ('s, 'g) state)" where
  "paint v st =
     (case v of
        JRoom r \<Rightarrow> Inr (v, st\<lparr>painted := painted st @ [r]\<rparr>)
      | _ \<Rightarrow> Inl TypeError)"

definition begin_session ::
  "('s, 'g) service \<Rightarrow> ('s, 'g) state \<Rightarrow> (error + 'g jsval) \<times> ('s, 'g) state" where
  "begin_session srv st = and_then (req srv GET None True st) cache"

definition move ::
  "('s, 'g) service \<Rightarrow> room_id \<Rightarrow> ('s, 'g) state \<Rightarrow> (error + 'g jsval) \<times> ('s, 'g) state" where
  "move srv x st = and_then (and_then (req srv PUT (Some x) False st) cache) paint"

section \<open>The main loop\<close>

text \<open>\<open>current.see.find(xid => rooms[xid] === UNKNOWN)\<close>\<close>

definition frontier :: "'g room \<Rightarrow> (room_id \<rightharpoonup> 'g cell) \<Rightarrow> room_id option" where
  "frontier c rs = find (\<lambda>x. get_room rs x = Own UNKNOWN) (see c)"

fun indexOf :: "'a list \<Rightarrow> 'a \<Rightarrow> int" where
  "indexOf [] y = - 1"
| "indexOf (x # xs) y =
     (if x = y then 0 else (let i = indexOf xs y in if i < 0 then - 1 else i + 1))"

text \<open>\<open>back.xid\<close>: a string has no such property, the result is \<open>undefined\<close>.\<close>

definition entry_xid :: "'g entry \<Rightarrow> room_id option" where
  "entry_xid back = (case back of Id s \<Rightarrow> None | Rec r \<Rightarrow> Some (xid r))"

text \<open>
  The inner loop \<open>while (trail.length > 0)\<close>. The neighbour list holds strings only, so
  \<open>indexOf(undefined)\<close> is \<open>-1\<close>. Without a match \<open>current\<close> stays what it was.
\<close>

function backtrack ::
  "('s, 'g) service \<Rightarrow> 'g room \<Rightarrow> ('s, 'g) state \<Rightarrow> (error + 'g jsval) \<times> ('s, 'g) state" where
  "backtrack srv c st =
     (if length (trail st) > 0 then
        (case entry_xid (last (trail st)) of
           Some b \<Rightarrow>
             if indexOf (see c) b \<ge> 0 then move srv b (st\<lparr>trail := butlast (trail st)\<rparr>)
             else backtrack srv c (st\<lparr>trail := butlast (trail st)\<rparr>)
         | None \<Rightarrow> backtrack srv c (st\<lparr>trail := butlast (trail st)\<rparr>))
      else (Inr (JRoom c), st))"
  by pat_completeness auto
termination
  by (relation "measure (\<lambda>(srv, c, st). length (trail st))") auto

declare backtrack.simps [simp del]

text \<open>
  \<open>current = await p\<close>: a rejected promise throws out of \<open>main\<close>, a fulfilled one
  gives the new value of \<open>current\<close>.
\<close>

datatype ('s, 'g) flow = Next "'g jsval" "('s, 'g) state" | Halt "error option" "('s, 'g) state"

definition await :: "(error + 'g jsval) \<times> ('s, 'g) state \<Rightarrow> ('s, 'g) flow" where
  "await p = (case fst p of Inl e \<Rightarrow> Halt (Some e) (snd p) | Inr v \<Rightarrow> Next v (snd p))"

text \<open>One pass through the body of \<open>while (current)\<close>.\<close>

definition iteration ::
  "('s, 'g) service \<Rightarrow> 'g jsval \<Rightarrow> ('s, 'g) state \<Rightarrow> ('s, 'g) flow" where
  "iteration srv current st =
     (case current of
        JRoom c \<Rightarrow>
          (case frontier c (rooms st) of
             Some x \<Rightarrow> await (move srv x (st\<lparr>trail := trail st @ [Rec c]\<rparr>))
           | None \<Rightarrow>
               if length (trail st) > 0 then await (backtrack srv c st)
               else Halt None st)
      | _ \<Rightarrow> Halt None st)"

text \<open>
  The loop with a bound on the number of passes; \<open>None\<close> is a run that needs more.
  The result is the rejection of the promise of \<open>main\<close>, if any, and the final state.
\<close>

fun loop ::
  "nat \<Rightarrow> ('s, 'g) service \<Rightarrow> 'g jsval \<Rightarrow> ('s, 'g) state
     \<Rightarrow> (error option \<times> ('s, 'g) state) option" where
  "loop 0 srv current st = None"
| "loop (Suc n) srv current st =
     (case iteration srv current st of
        Next cur' st' \<Rightarrow> loop n srv cur' st'
      | Halt e st' \<Rightarrow> Some (e, st'))"

definition main ::
  "nat \<Rightarrow> ('s, 'g) service \<Rightarrow> ('s, 'g) state \<Rightarrow> (error option \<times> ('s, 'g) state) option" where
  "main n srv st =
     (case await (begin_session srv st) of
        Halt e st' \<Rightarrow> Some (e, st')
      | Next current st' \<Rightarrow> loop n srv current st')"

section \<open>The remote room service\<close>

text \<open>
  Modelled from the spec: the Remote Room Service, which is not part of the sources.
  \<open>startSession\<close> (the GET request) returns the starting room and makes it the
  service's current room; \<open>moveTo\<close> (the PUT request) succeeds only if the identifier
  is a neighbour of the service's current room, returns the full record of that room
  and makes it current, and fails with not-found otherwise. The graph is static: the
  neighbour list and display data of a room are functions of its identifier.
\<close>

definition room_of :: "(room_id \<Rightarrow> room_id list) \<Rightarrow> (room_id \<Rightarrow> 'g) \<Rightarrow> room_id \<Rightarrow> 'g room" where
  "room_of nbrs disp x = \<lparr>xid = x, see = nbrs x, geom = disp x\<rparr>"

definition room_service ::
  "(room_id \<Rightarrow> room_id list) \<Rightarrow> (room_id \<Rightarrow> 'g) \<Rightarrow> room_id \<Rightarrow> (room_id option, 'g) service" where
  "room_service nbrs disp start cur rq =
     (case http_method rq of
        GET \<Rightarrow> (Ok (BodyRoom (room_of nbrs disp start)), Some start)
      | PUT \<Rightarrow>
          (case (cur, body rq) of
             (Some c, Some x) \<Rightarrow>
               if x \<in> set (nbrs c) then (Ok (BodyRoom (room_of nbrs disp x)), Some x)
               else (NotOk 404, cur)
           | _ \<Rightarrow> (NotOk 404, cur)))"

section \<open>Notions used in the statements\<close>

text \<open>The guard of \<open>cache\<close> on a room with identifier \<open>x\<close>.\<close>

definition cache_stores :: "(room_id \<rightharpoonup> 'g cell) \<Rightarrow> room_id \<Rightarrow> bool" where
  "cache_stores rs x = (get_room rs x = Undefined \<or> get_room rs x = Own UNKNOWN)"

text \<open>A request has failed when \<open>fetch\<close> rejects or the response is not ok.\<close>

definition is_failure :: "'g response \<Rightarrow> bool" where
  "is_failure r = (case r of Ok b \<Rightarrow> False | _ \<Rightarrow> True)"

text \<open>The three stages of a cache entry: absent, \<open>UNKNOWN\<close>, a fetched record.\<close>

fun rank :: "'g cell option \<Rightarrow> nat" where
  "rank None = 0"
| "rank (Some UNKNOWN) = 1"
| "rank (Some (Known r)) = 2"

definition advances :: "'g cell option \<Rightarrow> 'g cell option \<Rightarrow> bool" where
  "advances a b = (rank a \<le> rank b \<and> (\<forall>r. a = Some (Known r) \<longrightarrow> b = a))"

text \<open>
  Calls of the two functions that write \<open>rooms\<close>; a call of \<open>cache\<close> that throws
  leaves the state as it was.
\<close>

datatype 'g cache_op = OpCache "'g jsval" | OpRemember room_id

fun apply_op :: "'g cache_op \<Rightarrow> ('s, 'g) state \<Rightarrow> ('s, 'g) state" where
  "apply_op (OpCache v) st = (case cache v st of Inl e \<Rightarrow> st | Inr (w, st') \<Rightarrow> st')"
| "apply_op (OpRemember x) st = remember x st"

fun flow_state :: "('s, 'g) flow \<Rightarrow> ('s, 'g) state" where
  "flow_state (Next v st) = st"
| "flow_state (Halt e st) = st"

text \<open>The test \<open>current.see.indexOf(back.xid) >= 0\<close> of the backtracking scan.\<close>

definition adjacent :: "'g room \<Rightarrow> 'g entry \<Rightarrow> bool" where
  "adjacent c e = (case entry_xid e of None \<Rightarrow> False | Some b \<Rightarrow> b \<in> set (see c))"

text \<open>
  The value of \<open>current\<close> and the state at the start of pass \<open>n\<close> of the loop, counted
  from a given pass; \<open>None\<close> when the loop has ended before.
\<close>

fun passes ::
  "nat \<Rightarrow> ('s, 'g) service \<Rightarrow> 'g jsval \<Rightarrow> ('s, 'g) state \<Rightarrow> ('g jsval \<times> ('s, 'g) state) option" where
  "passes 0 srv current st = Some (current, st)"
| "passes (Suc n) srv current st =
     (case iteration srv current st of
        Next cur' st' \<Rightarrow> passes n srv cur' st'
      | Halt e st' \<Rightarrow> None)"

text \<open>
  What a call of \<open>cache\<close> may have pushed onto the trail between two states: nothing,
  or the identifier of a room that held no record before and holds its record after.
\<close>

definition cache_pushed :: "('s, 'g) state \<Rightarrow> ('s, 'g) state \<Rightarrow> 'g entry list \<Rightarrow> bool" where
  "cache_pushed st st' pushed =
     (pushed = [] \<or>
      (\<exists>r. pushed = [Id (xid r)] \<and> (cache_stores (rooms st) (xid r))
           \<and> rooms st' (xid r) = Some (Known r)))"

section \<open>Graphs and the measure of a walk\<close>

text \<open>
  The rooms reachable from \<open>s\<close> along neighbour lists, and the edges of that component,
  each counted once whatever its direction.
\<close>

definition edge_rel :: "(room_id \<Rightarrow> room_id list) \<Rightarrow> (room_id \<times> room_id) set" where
  "edge_rel nbrs = {(a, b). b \<in> set (nbrs a)}"

definition reachable :: "(room_id \<Rightarrow> room_id list) \<Rightarrow> room_id \<Rightarrow> room_id set" where
  "reachable nbrs s = (rtrancl (edge_rel nbrs)) `` {s}"

definition comp_edges :: "(room_id \<Rightarrow> room_id list) \<Rightarrow> room_id \<Rightarrow> room_id set set" where
  "comp_edges nbrs s = (\<Union>x\<in>reachable nbrs s. (\<lambda>y. {x, y}) ` set (nbrs x))"

text \<open>The identifiers that hold a fetched record.\<close>

definition known_ids :: "('s, 'g) state \<Rightarrow> room_id set" where
  "known_ids st = {x. \<exists>r. rooms st x = Some (Known r)}"

fun is_rec :: "'g entry \<Rightarrow> bool" where
  "is_rec (Rec r) = True"
| "is_rec (Id s) = False"

text \<open>The requests of moves are the PUT requests.\<close>

definition is_put :: "fetch_init \<Rightarrow> bool" where
  "is_put rq = (http_method rq = PUT)"

text \<open>
  What holds at the start of every pass when the service follows the graph: the walker
  and the service stand in the same fetched room; the cache mentions reachable rooms
  only; the records on the trail are fetched rooms; one request was the initial fetch;
  the requests sent and the records still on the trail are paid for by the fetched
  rooms, two for each but the first; and the fetched rooms are linked by as many
  distinct edges as there are rooms but the first.
\<close>

definition walk_inv ::
  "(room_id \<Rightarrow> room_id list) \<Rightarrow> (room_id \<Rightarrow> 'g) \<Rightarrow> room_id \<Rightarrow> 'g jsval
     \<Rightarrow> (room_id option, 'g) state \<Rightarrow> bool" where
  "walk_inv nbrs disp s current st =
     ((\<exists>c. current = JRoom (room_of nbrs disp c) \<and> server st = Some c \<and> c \<in> known_ids st)
      \<and> dom (rooms st) \<subseteq> reachable nbrs s
      \<and> (\<forall>r. Rec r \<in> set (trail st) \<longrightarrow> xid r \<in> known_ids st)
      \<and> length (requests st) = Suc (length (filter is_put (requests st)))
      \<and> length (requests st) + length (filter is_rec (trail st)) + 1 \<le> 2 * card (known_ids st)
      \<and> (\<exists>T. T \<subseteq> comp_edges nbrs s \<and> card T + 1 = card (known_ids st)
             \<and> (\<forall>e\<in>T. e \<subseteq> known_ids st)))"

text \<open>The quantity that decreases with every pass that does not end the loop.\<close>

definition weight :: "(room_id \<Rightarrow> room_id list) \<Rightarrow> room_id \<Rightarrow> ('s, 'g) state \<Rightarrow> nat" where
  "weight nbrs s st = 3 * (card (reachable nbrs s) - card (known_ids st)) + length (trail st)"

text \<open>The number of requests of a finished run.\<close>

definition round_trips :: "(error option \<times> ('s, 'g) state) option \<Rightarrow> nat" where
  "round_trips res = (case res of None \<Rightarrow> 0 | Some (e, st) \<Rightarrow> length (requests st))"

section \<open>The scenario graphs\<close>

text \<open>
  The graph \<open>A \<rightarrow> [B, C]\<close>, \<open>B \<rightarrow> [A]\<close>, \<open>C \<rightarrow> [A]\<close> with the walk starting at \<open>A\<close>, and
  the graph of the single room \<open>A \<rightarrow> []\<close>. The display data is the unit value.
\<close>

definition ex_nbrs :: "room_id \<Rightarrow> room_id list" where
  "ex_nbrs x =
     (if x = ''A'' then [''B'', ''C'']
      else if x = ''B'' then [''A'']
      else if x = ''C'' then [''A'']
      else [])"

definition ex_room :: "room_id \<Rightarrow> unit room" where
  "ex_room x = room_of ex_nbrs (\<lambda>x. ()) x"

definition ex_service :: "(room_id option, unit) service" where
  "ex_service = room_service ex_nbrs (\<lambda>x. ()) ''A''"

definition ex_init :: "(room_id option, unit) state" where
  "ex_init = init_state None"

definition ex_entered :: "(room_id option, unit) state" where
  "ex_entered = snd (begin_session ex_service ex_init)"

definition single_nbrs :: "room_id \<Rightarrow> room_id list" where
  "single_nbrs x = []"

definition single_service :: "(room_id option, unit) service" where
  "single_service = room_service single_nbrs (\<lambda>x. ()) ''A''"

text \<open>The scenario after the first pass (the walker stands in \<open>B\<close>).\<close>

definition ex_at_B :: "(room_id option, unit) state" where
  "ex_at_B = flow_state (iteration ex_service (JRoom (ex_room ''A'')) ex_entered)"

definition single_entered :: "(room_id option, unit) state" where
  "single_entered = snd (begin_session single_service ex_init)"

text \<open>
  Rooms with names that a plain object inherits: a room called \<open>constructor\<close>, a room
  with a neighbour called \<open>toString\<close>, and the graph \<open>constructor \<rightarrow> [B]\<close>,
  \<open>B \<rightarrow> [constructor]\<close> with the walk starting at \<open>constructor\<close>.
\<close>

definition proto_room :: "unit room" where
  "proto_room = \<lparr>xid = ''constructor'', see = [''B''], geom = ()\<rparr>"

definition vane_room :: "unit room" where
  "vane_room = \<lparr>xid = ''A'', see = [''toString'', ''B''], geom = ()\<rparr>"

definition proto_nbrs :: "room_id \<Rightarrow> room_id list" where
  "proto_nbrs x =
     (if x = ''constructor'' then [''B'']
      else if x = ''B'' then [''constructor'']
      else [])"

definition proto_service :: "(room_id option, unit) service" where
  "proto_service = room_service proto_nbrs (\<lambda>x. ()) ''constructor''"

text \<open>
  The scenario service with the room \<open>B\<close> gone stale (a move there is answered with
  404), and a service that rejects every request.
\<close>

definition stale_service :: "(room_id option, unit) service" where
  "stale_service cur rq =
     (if body rq = Some ''B'' then (NotOk 404, cur) else ex_service cur rq)"

definition dead_service :: "(room_id option, unit) service" where
  "dead_service cur rq = (NetworkError, cur)"

text \<open>A service that is down, and the walker standing in \<open>A\<close> when it goes down.\<close>

definition down_service :: "(unit, unit) service" where
  "down_service s rq = (NetworkError, s)"

definition down_entered :: "(unit, unit) state" where
  "down_entered =
     \<lparr>rooms = [''A'' \<mapsto> Known (ex_room ''A''), ''B'' \<mapsto> UNKNOWN, ''C'' \<mapsto> UNKNOWN],
      trail = [Id ''A''], alerts = [], painted = [], requests = [init GET None True],
      server = ()\<rparr>"

section \<open>Auxiliary facts\<close>

lemma get_room_iff:
  "get_room rs x = Undefined \<longleftrightarrow> rs x = None \<and> x \<notin> set proto_names"
  "get_room rs x = Inherited \<longleftrightarrow> rs x = None \<and> x \<in> set proto_names"
  "get_room rs x = Own c \<longleftrightarrow> rs x = Some c"
  by (auto simp: get_room_def split: option.splits)

lemma cache_stores_iff:
  "cache_stores rs x \<longleftrightarrow> (rs x = None \<and> x \<notin> set proto_names) \<or> rs x = Some UNKNOWN"
  by (simp add: cache_stores_def get_room_iff)

lemma frontier_alt: "frontier c rs = find (\<lambda>x. rs x = Some UNKNOWN) (see c)"
  by (simp add: frontier_def get_room_iff)

lemma foldl_remember_rooms:
  "rooms (foldl (\<lambda>s x. remember x s) st xs) y =
     (if get_room (rooms st) y = Undefined \<and> y \<in> set xs then Some UNKNOWN else rooms st y)"
  by (induction xs arbitrary: st) (auto simp: remember_def get_room_iff)

lemma foldl_remember_others:
  "trail (foldl (\<lambda>s x. remember x s) st xs) = trail st"
  "alerts (foldl (\<lambda>s x. remember x s) st xs) = alerts st"
  "painted (foldl (\<lambda>s x. remember x s) st xs) = painted st"
  "requests (foldl (\<lambda>s x. remember x s) st xs) = requests st"
  "server (foldl (\<lambda>s x. remember x s) st xs) = server st"
  by (induction xs arbitrary: st) (auto simp: remember_def)

lemma cache_guard_room:
  "cache_guard (JRoom r) rs = Inr (cache_stores rs (xid r))"
  by (auto simp: cache_guard_def cache_stores_def truthy_def get_xid_def split: bool.split)

lemma cache_room:
  "cache (JRoom r) st =
     Inr (JRoom r,
          if cache_stores (rooms st) (xid r)
          then foldl (\<lambda>s x. remember x s)
                 (st\<lparr>trail := trail st @ [Id (xid r)], rooms := (rooms st)(xid r \<mapsto> Known r)\<rparr>)
                 (see r)
          else st)"
  by (auto simp: cache_def cache_guard_room split: bool.split)

lemma cache_nonroom: "cache JNull st = Inl TypeError" "cache JUndefined st = Inl TypeError"
  by (simp_all add: cache_def cache_guard_def truthy_def get_xid_def)

lemma remember_rooms:
  "rooms (remember x st) y =
     (if y = x \<and> get_room (rooms st) x = Undefined then Some UNKNOWN else rooms st y)"
  by (simp add: remember_def)

lemma remember_idem: "remember x (remember x st) = remember x st"
  by (simp add: remember_def)

lemma advances_refl: "advances a a"
  by (simp add: advances_def)

lemma advances_trans: "advances a b \<Longrightarrow> advances b c \<Longrightarrow> advances a c"
  by (auto simp: advances_def)

lemma rank_cases: "rank a = 0 \<longleftrightarrow> a = None"
  by (cases a rule: rank.cases) simp_all

lemma remember_advances: "advances (rooms st y) (rooms (remember x st) y)"
  by (simp add: remember_rooms advances_def get_room_iff)

lemma cache_advances:
  "cache v st = Inr (w, st') \<Longrightarrow> advances (rooms st y) (rooms st' y)"
proof (cases v)
  case (JRoom r)
  assume "cache v st = Inr (w, st')"
  with JRoom show ?thesis
    by (cases "rooms st y" rule: rank.cases)
       (auto simp: cache_room foldl_remember_rooms get_room_iff cache_stores_iff advances_def split: if_splits)
qed (simp_all add: cache_nonroom)

lemma req_fields:
  "rooms (snd (req srv m d reset st)) = rooms st"
  "trail (snd (req srv m d reset st)) = trail st"
  "painted (snd (req srv m d reset st)) = painted st"
  "requests (snd (req srv m d reset st)) = requests st @ [init m d reset]"
  "server (snd (req srv m d reset st)) = snd (srv (server st) (init m d reset))"
  by (simp_all add: req_def Let_def split: response.split)

lemma req_failure:
  assumes "is_failure (fst (srv (server st) (init m d reset)))"
  shows "fst (req srv m d reset st) = Inl SyntaxError"
    and "\<exists>a. alerts (snd (req srv m d reset st)) = alerts st @ [a]"
  using assms by (auto simp: req_def Let_def is_failure_def JSON_parse_def split: response.splits)

lemma req_ok:
  assumes "fst (srv (server st) (init m d reset)) = Ok b"
  shows "fst (req srv m d reset st) = JSON_parse (Some b)"
    and "alerts (snd (req srv m d reset st)) = alerts st"
  using assms by (simp_all add: req_def Let_def)

lemma req_not_undefined: "fst (req srv m d reset st) \<noteq> Inr JUndefined"
  by (simp add: req_def Let_def JSON_parse_def split: response.split body.split)

lemma and_then_Inl: "fst p = Inl e \<Longrightarrow> and_then p f = (Inl e, snd p)"
  by (simp add: and_then_def)

lemma and_then_cache_room:
  "fst p = Inr (JRoom r) \<Longrightarrow>
     and_then p cache = (Inr (JRoom r), snd (projr (cache (JRoom r) (snd p))))"
  by (simp add: and_then_def cache_room)

lemma and_then_cache_null:
  "fst p = Inr JNull \<Longrightarrow> and_then p cache = (Inl TypeError, snd p)"
  by (simp add: and_then_def cache_nonroom)

lemma begin_cases:
  "(\<exists>e. begin_session srv st = (Inl e, snd (req srv GET None True st)))
   \<or> (\<exists>r. fst (req srv GET None True st) = Inr (JRoom r) \<and>
          cache (JRoom r) (snd (req srv GET None True st))
            = Inr (JRoom r, snd (begin_session srv st))
          \<and> fst (begin_session srv st) = Inr (JRoom r))"
proof (cases "fst (req srv GET None True st)")
  case (Inl e)
  then show ?thesis by (simp add: begin_session_def and_then_Inl)
next
  case (Inr v)
  then show ?thesis using req_not_undefined[of srv GET None True st]
    by (cases v) (simp_all add: begin_session_def and_then_cache_null and_then_cache_room cache_room)
qed

lemma move_cases:
  "(\<exists>e. move srv x st = (Inl e, snd (req srv PUT (Some x) False st)))
   \<or> (\<exists>r st1. fst (req srv PUT (Some x) False st) = Inr (JRoom r) \<and>
          cache (JRoom r) (snd (req srv PUT (Some x) False st)) = Inr (JRoom r, st1)
          \<and> move srv x st = (Inr (JRoom r), st1\<lparr>painted := painted st1 @ [r]\<rparr>))"
proof (cases "fst (req srv PUT (Some x) False st)")
  case (Inl e)
  then show ?thesis by (simp add: move_def and_then_Inl)
next
  case (Inr v)
  then show ?thesis using req_not_undefined[of srv PUT "Some x" False st]
    by (cases v)
       (simp_all add: move_def and_then_cache_null and_then_cache_room and_then_Inl cache_room,
        simp_all add: and_then_def paint_def)
qed

lemma indexOf_lower: "- 1 \<le> indexOf xs y"
  by (induction xs) (auto simp: Let_def)

lemma indexOf_mem: "0 \<le> indexOf xs y \<longleftrightarrow> y \<in> set xs"
  by (induction xs) (auto simp: Let_def)

lemma trail_update_same: "trail st = xs \<Longrightarrow> st\<lparr>trail := xs\<rparr> = st"
  by (cases st) auto

lemma backtrack_Nil: "trail st = [] \<Longrightarrow> backtrack srv c st = (Inr (JRoom c), st)"
  by (subst backtrack.simps) simp

lemma backtrack_snoc_match:
  "trail st = rest @ [e] \<Longrightarrow> entry_xid e = Some b \<Longrightarrow> b \<in> set (see c) \<Longrightarrow>
     backtrack srv c st = move srv b (st\<lparr>trail := rest\<rparr>)"
  by (subst backtrack.simps) (simp add: indexOf_mem)

lemma backtrack_snoc_skip:
  "trail st = rest @ [e] \<Longrightarrow> \<not> adjacent c e \<Longrightarrow>
     backtrack srv c st = backtrack srv c (st\<lparr>trail := rest\<rparr>)"
  by (subst backtrack.simps) (simp add: adjacent_def indexOf_mem split: option.splits)

lemma backtrack_exhausted:
  "\<forall>e\<in>set (trail st). \<not> adjacent c e \<Longrightarrow>
     backtrack srv c st = (Inr (JRoom c), st\<lparr>trail := []\<rparr>)"
proof (induction "trail st" arbitrary: st rule: rev_induct)
  case Nil
  then show ?case by (simp add: backtrack_Nil trail_update_same)
next
  case (snoc e rest)
  have tr: "trail st = rest @ [e]" using snoc.hyps(2) by simp
  have ne: "\<not> adjacent c e" using snoc.prems tr by simp
  have "backtrack srv c (st\<lparr>trail := rest\<rparr>) = (Inr (JRoom c), st\<lparr>trail := rest\<rparr>\<lparr>trail := []\<rparr>)"
    using snoc.prems tr by (intro snoc.hyps(1)) simp_all
  then show ?case by (simp add: backtrack_snoc_skip[OF tr ne])
qed

lemma backtrack_found:
  "trail st = rest @ e # skipped \<Longrightarrow> entry_xid e = Some b \<Longrightarrow> b \<in> set (see c) \<Longrightarrow>
   \<forall>e'\<in>set skipped. \<not> adjacent c e' \<Longrightarrow>
     backtrack srv c st = move srv b (st\<lparr>trail := rest\<rparr>)"
proof (induction skipped arbitrary: st rule: rev_induct)
  case Nil
  then show ?case by (simp add: backtrack_snoc_match)
next
  case (snoc e' sk)
  have tr: "trail st = (rest @ e # sk) @ [e']" using snoc.prems(1) by simp
  have ne: "\<not> adjacent c e'" using snoc.prems(4) by simp
  have "backtrack srv c (st\<lparr>trail := rest @ e # sk\<rparr>)
          = move srv b (st\<lparr>trail := rest @ e # sk\<rparr>\<lparr>trail := rest\<rparr>)"
    using snoc.prems by (intro snoc.IH) simp_all
  then show ?case by (simp add: backtrack_snoc_skip[OF tr ne])
qed

lemma split_last_adjacent:
  "\<exists>e\<in>set xs. adjacent c e \<Longrightarrow>
     \<exists>rest e skipped. xs = rest @ e # skipped \<and> adjacent c e \<and> (\<forall>e'\<in>set skipped. \<not> adjacent c e')"
proof (induction xs rule: rev_induct)
  case Nil
  then show ?case by simp
next
  case (snoc a xs)
  show ?case
  proof (cases "adjacent c a")
    case True
    then have "xs @ [a] = xs @ a # [] \<and> adjacent c a \<and> (\<forall>e'\<in>set []. \<not> adjacent c e')" by simp
    then show ?thesis by blast
  next
    case False
    with snoc.prems have "\<exists>e\<in>set xs. adjacent c e" by auto
    from snoc.IH[OF this] obtain rest e skipped where
      "xs = rest @ e # skipped" "adjacent c e" "\<forall>e'\<in>set skipped. \<not> adjacent c e'" by blast
    with False have "xs @ [a] = rest @ e # (skipped @ [a]) \<and> adjacent c e
        \<and> (\<forall>e'\<in>set (skipped @ [a]). \<not> adjacent c e')" by simp
    then show ?thesis by blast
  qed
qed

lemma backtrack_cases:
  "backtrack srv c st = (Inr (JRoom c), st\<lparr>trail := []\<rparr>)
   \<or> (\<exists>rest e skipped b. trail st = rest @ e # skipped \<and> entry_xid e = Some b \<and>
         b \<in> set (see c) \<and> backtrack srv c st = move srv b (st\<lparr>trail := rest\<rparr>))"
proof (cases "\<exists>e\<in>set (trail st). adjacent c e")
  case True
  from split_last_adjacent[OF this] obtain rest e skipped where
    d: "trail st = rest @ e # skipped" "adjacent c e" "\<forall>e'\<in>set skipped. \<not> adjacent c e'" by blast
  from d(2) obtain b where b: "entry_xid e = Some b" "b \<in> set (see c)"
    by (auto simp: adjacent_def split: option.splits)
  from backtrack_found[OF d(1) b d(3)] d(1) b show ?thesis by blast
next
  case False
  then show ?thesis by (simp add: backtrack_exhausted)
qed

lemma move_advances: "advances (rooms st y) (rooms (snd (move srv x st)) y)"
  using move_cases[of srv x st]
proof (elim disjE exE conjE)
  fix e assume "move srv x st = (Inl e, snd (req srv PUT (Some x) False st))"
  then show ?thesis by (simp add: req_fields advances_refl)
next
  fix r st1
  assume c: "cache (JRoom r) (snd (req srv PUT (Some x) False st)) = Inr (JRoom r, st1)"
    and m: "move srv x st = (Inr (JRoom r), st1\<lparr>painted := painted st1 @ [r]\<rparr>)"
  from cache_advances[OF c, of y] m show ?thesis by (simp add: req_fields)
qed

lemma begin_advances: "advances (rooms st y) (rooms (snd (begin_session srv st)) y)"
  using begin_cases[of srv st]
proof (elim disjE exE conjE)
  fix e assume "begin_session srv st = (Inl e, snd (req srv GET None True st))"
  then show ?thesis by (simp add: req_fields advances_refl)
next
  fix r
  assume c: "cache (JRoom r) (snd (req srv GET None True st))
               = Inr (JRoom r, snd (begin_session srv st))"
  from cache_advances[OF c, of y] show ?thesis by (simp add: req_fields)
qed

lemma backtrack_advances: "advances (rooms st y) (rooms (snd (backtrack srv c st)) y)"
  using backtrack_cases[of srv c st]
proof (elim disjE exE conjE)
  assume "backtrack srv c st = (Inr (JRoom c), st\<lparr>trail := []\<rparr>)"
  then show ?thesis by (simp add: advances_refl)
next
  fix rest e skipped b
  assume "backtrack srv c st = move srv b (st\<lparr>trail := rest\<rparr>)"
  then show ?thesis using move_advances[of "st\<lparr>trail := rest\<rparr>" y srv b] by simp
qed

lemma iteration_advances:
  "advances (rooms st y) (rooms (flow_state (iteration srv current st)) y)"
proof (cases current)
  case (JRoom c)
  show ?thesis
  proof (cases "frontier c (rooms st)")
    case None
    with JRoom show ?thesis
      using backtrack_advances[of st y srv c]
      by (auto simp: iteration_def await_def advances_refl split: sum.splits)
  next
    case (Some x)
    with JRoom show ?thesis
      using move_advances[of "st\<lparr>trail := trail st @ [Rec c]\<rparr>" y srv x]
      by (auto simp: iteration_def await_def split: sum.splits)
  qed
qed (simp_all add: iteration_def advances_refl)

lemma passes_advances:
  "passes n srv current st = Some (cur', st') \<Longrightarrow> advances (rooms st y) (rooms st' y)"
proof (induction n arbitrary: current st)
  case 0
  then show ?case by (simp add: advances_refl)
next
  case (Suc n)
  then show ?case
    using iteration_advances[of st y srv current]
    by (auto split: flow.splits intro: advances_trans)
qed

lemma loop_advances:
  "loop n srv current st = Some (e, st') \<Longrightarrow> advances (rooms st y) (rooms st' y)"
proof (induction n arbitrary: current st)
  case 0
  then show ?case by simp
next
  case (Suc n)
  then show ?case
    using iteration_advances[of st y srv current]
    by (auto split: flow.splits intro: advances_trans)
qed

lemma apply_op_advances: "advances (rooms st y) (rooms (apply_op opn st) y)"
proof (cases opn)
  case (OpCache v)
  then show ?thesis
    by (auto simp: advances_refl split: sum.splits dest: cache_advances)
next
  case (OpRemember x)
  then show ?thesis by (simp add: remember_advances)
qed

lemma ops_advance: "advances (rooms st y) (rooms (foldl (\<lambda>s opn. apply_op opn s) st ops) y)"
proof (induction ops arbitrary: st)
  case Nil
  then show ?case by (simp add: advances_refl)
next
  case (Cons a ops)
  show ?case using apply_op_advances[of st y a] Cons.IH[of "apply_op a st"]
    by (auto intro: advances_trans)
qed

lemma cache_fields:
  assumes "cache v st = Inr (w, st')"
  shows "requests st' = requests st" "server st' = server st" "painted st' = painted st"
    "alerts st' = alerts st"
proof -
  obtain r where v: "v = JRoom r" using assms by (cases v) (simp_all add: cache_nonroom)
  with assms show "requests st' = requests st" "server st' = server st"
    "painted st' = painted st" "alerts st' = alerts st"
    by (auto simp: cache_room foldl_remember_others split: if_splits)
qed

lemma cache_trail:
  assumes "cache (JRoom r) st = Inr (w, st')"
  shows "trail st' = trail st @ (if cache_stores (rooms st) (xid r)
                                 then [Id (xid r)] else [])"
    and "cache_stores (rooms st) (xid r)
           \<Longrightarrow> rooms st' (xid r) = Some (Known r)"
  using assms by (auto simp: cache_room foldl_remember_others foldl_remember_rooms get_room_iff cache_stores_iff split: if_splits)

lemma move_requests:
  "requests (snd (move srv x st)) = requests st @ [init PUT (Some x) False]"
  "server (snd (move srv x st)) = snd (srv (server st) (init PUT (Some x) False))"
  using move_cases[of srv x st] by (auto simp: req_fields cache_fields)

lemma begin_requests:
  "requests (snd (begin_session srv st)) = requests st @ [init GET None True]"
  "painted (snd (begin_session srv st)) = painted st"
  using begin_cases[of srv st] by (auto simp: req_fields cache_fields)

lemma move_painted:
  "painted (snd (move srv x st)) =
     painted st @ (case fst (move srv x st) of Inr (JRoom r) \<Rightarrow> [r] | _ \<Rightarrow> [])"
  using move_cases[of srv x st] by (auto simp: req_fields cache_fields)

lemma move_failure:
  assumes "is_failure (fst (srv (server st) (init PUT (Some x) False)))"
  shows "move srv x st = (Inl SyntaxError, snd (req srv PUT (Some x) False st))"
  using req_failure(1)[of srv st PUT "Some x" False] assms by (simp add: move_def and_then_Inl)

lemma begin_failure:
  assumes "is_failure (fst (srv (server st) (init GET None True)))"
  shows "begin_session srv st = (Inl SyntaxError, snd (req srv GET None True st))"
  using req_failure(1)[of srv st GET None True] assms by (simp add: begin_session_def and_then_Inl)

lemma req_alert_404:
  "fst (srv (server st) (init m d reset)) = NotOk 404 \<Longrightarrow>
     alerts (snd (req srv m d reset st)) = alerts st @ [AlertNotFound]"
  by (simp add: req_def Let_def)

lemma move_trail:
  "\<exists>pushed. trail (snd (move srv x st)) = trail st @ pushed
      \<and> cache_pushed st (snd (move srv x st)) pushed"
  using move_cases[of srv x st]
proof (elim disjE exE conjE)
  fix e assume "move srv x st = (Inl e, snd (req srv PUT (Some x) False st))"
  then show ?thesis by (simp add: req_fields cache_pushed_def)
next
  fix r st1
  assume c: "cache (JRoom r) (snd (req srv PUT (Some x) False st)) = Inr (JRoom r, st1)"
    and m: "move srv x st = (Inr (JRoom r), st1\<lparr>painted := painted st1 @ [r]\<rparr>)"
  show ?thesis
    using cache_trail[OF c] m by (auto simp: req_fields cache_pushed_def)
qed

lemma iteration_forward:
  "frontier c (rooms st) = Some x \<Longrightarrow>
     iteration srv (JRoom c) st = await (move srv x (st\<lparr>trail := trail st @ [Rec c]\<rparr>))"
  by (simp add: iteration_def)

lemma iteration_backtrack:
  "frontier c (rooms st) = None \<Longrightarrow> trail st \<noteq> [] \<Longrightarrow>
     iteration srv (JRoom c) st = await (backtrack srv c st)"
  by (simp add: iteration_def)

lemma iteration_done:
  "frontier c (rooms st) = None \<Longrightarrow> trail st = [] \<Longrightarrow>
     iteration srv (JRoom c) st = Halt None st"
  by (simp add: iteration_def)

lemma loop_halt:
  "iteration srv current st = Halt e st' \<Longrightarrow> loop (Suc n) srv current st = Some (e, st')"
  by simp

lemma loop_next:
  "iteration srv current st = Next cur' st' \<Longrightarrow> loop (Suc n) srv current st = loop n srv cur' st'"
  by simp

lemma await_failure: "fst p = Inl e \<Longrightarrow> await p = Halt (Some e) (snd p)"
  by (simp add: await_def)

lemma reachable_start: "s \<in> reachable nbrs s"
  by (simp add: reachable_def)

lemma reachable_step: "x \<in> reachable nbrs s \<Longrightarrow> y \<in> set (nbrs x) \<Longrightarrow> y \<in> reachable nbrs s"
  unfolding reachable_def edge_rel_def by (auto intro: rtrancl_into_rtrancl)

lemma comp_edges_finite: "finite (reachable nbrs s) \<Longrightarrow> finite (comp_edges nbrs s)"
  by (simp add: comp_edges_def)

lemma comp_edges_mem:
  "x \<in> reachable nbrs s \<Longrightarrow> y \<in> set (nbrs x) \<Longrightarrow> {x, y} \<in> comp_edges nbrs s"
  by (auto simp: comp_edges_def)

lemma room_of_simps: "xid (room_of nbrs disp x) = x" "see (room_of nbrs disp x) = nbrs x"
  by (simp_all add: room_of_def)

lemma served_move:
  "x \<in> set (nbrs c) \<Longrightarrow>
     room_service nbrs disp s (Some c) (init PUT (Some x) False)
       = (Ok (BodyRoom (room_of nbrs disp x)), Some x)"
  by (simp add: room_service_def init_def)

lemma served_begin:
  "room_service nbrs disp s cur (init GET None True)
     = (Ok (BodyRoom (room_of nbrs disp s)), Some s)"
  by (simp add: room_service_def init_def)

lemma cache_rooms:
  assumes "cache (JRoom r) st = Inr (w, st')"
  shows "rooms st' y =
           (if cache_stores (rooms st) (xid r)
            then (if y = xid r then Some (Known r)
                  else if get_room (rooms st) y = Undefined \<and> y \<in> set (see r) then Some UNKNOWN
                  else rooms st y)
            else rooms st y)"
  using assms by (auto simp: cache_room foldl_remember_rooms get_room_iff cache_stores_iff split: if_splits)

lemma move_ok:
  assumes "fst (srv (server st) (init PUT (Some x) False)) = Ok (BodyRoom r)"
  shows "fst (move srv x st) = Inr (JRoom r)"
    and "trail (snd (move srv x st)) =
           trail st @ (if cache_stores (rooms st) (xid r)
                       then [Id (xid r)] else [])"
    and "rooms (snd (move srv x st)) y =
           (if cache_stores (rooms st) (xid r)
            then (if y = xid r then Some (Known r)
                  else if get_room (rooms st) y = Undefined \<and> y \<in> set (see r) then Some UNKNOWN
                  else rooms st y)
            else rooms st y)"
proof -
  have q: "fst (req srv PUT (Some x) False st) = Inr (JRoom r)"
    using req_ok(1)[of srv st PUT "Some x" False "BodyRoom r"] assms by (simp add: JSON_parse_def)
  from move_cases[of srv x st] q obtain st1 where
    c: "cache (JRoom r) (snd (req srv PUT (Some x) False st)) = Inr (JRoom r, st1)"
    and m: "move srv x st = (Inr (JRoom r), st1\<lparr>painted := painted st1 @ [r]\<rparr>)"
    by (auto simp: move_def and_then_Inl and_then_def cache_room paint_def)
  show "fst (move srv x st) = Inr (JRoom r)" by (simp add: m)
  show "trail (snd (move srv x st)) =
           trail st @ (if cache_stores (rooms st) (xid r)
                       then [Id (xid r)] else [])"
    using cache_trail(1)[OF c] by (simp add: m req_fields)
  show "rooms (snd (move srv x st)) y =
           (if cache_stores (rooms st) (xid r)
            then (if y = xid r then Some (Known r)
                  else if get_room (rooms st) y = Undefined \<and> y \<in> set (see r) then Some UNKNOWN
                  else rooms st y)
            else rooms st y)"
    using cache_rooms[OF c, of y] by (simp add: m req_fields)
qed

lemma begin_ok:
  assumes "fst (srv (server st) (init GET None True)) = Ok (BodyRoom r)"
  shows "fst (begin_session srv st) = Inr (JRoom r)"
    and "trail (snd (begin_session srv st)) =
           trail st @ (if cache_stores (rooms st) (xid r)
                       then [Id (xid r)] else [])"
    and "rooms (snd (begin_session srv st)) y =
           (if cache_stores (rooms st) (xid r)
            then (if y = xid r then Some (Known r)
                  else if get_room (rooms st) y = Undefined \<and> y \<in> set (see r) then Some UNKNOWN
                  else rooms st y)
            else rooms st y)"
    and "server (snd (begin_session srv st)) = snd (srv (server st) (init GET None True))"
proof -
  have q: "fst (req srv GET None True st) = Inr (JRoom r)"
    using req_ok(1)[of srv st GET None True "BodyRoom r"] assms by (simp add: JSON_parse_def)
  have b: "begin_session srv st
      = (Inr (JRoom r), snd (projr (cache (JRoom r) (snd (req srv GET None True st)))))"
    using q by (simp add: begin_session_def and_then_cache_room)
  have c: "cache (JRoom r) (snd (req srv GET None True st)) = Inr (JRoom r, snd (begin_session srv st))"
    and m: "fst (begin_session srv st) = Inr (JRoom r)"
    by (simp_all add: b cache_room)
  show "fst (begin_session srv st) = Inr (JRoom r)" by (rule m)
  show "trail (snd (begin_session srv st)) =
           trail st @ (if cache_stores (rooms st) (xid r)
                       then [Id (xid r)] else [])"
    using cache_trail(1)[OF c] by (simp add: req_fields)
  show "rooms (snd (begin_session srv st)) y =
           (if cache_stores (rooms st) (xid r)
            then (if y = xid r then Some (Known r)
                  else if get_room (rooms st) y = Undefined \<and> y \<in> set (see r) then Some UNKNOWN
                  else rooms st y)
            else rooms st y)"
    using cache_rooms[OF c, of y] by (simp add: req_fields)
  show "server (snd (begin_session srv st)) = snd (srv (server st) (init GET None True))"
    using cache_fields(2)[OF c] by (simp add: req_fields)
qed

lemma known_ids_dom: "known_ids st \<subseteq> dom (rooms st)"
  by (auto simp: known_ids_def)

lemma is_put_init: "is_put (init PUT d reset)" "\<not> is_put (init GET d reset)"
  by (simp_all add: is_put_def init_def)

lemma walk_forward:
  fixes st :: "(room_id option, 'g) state"
  assumes fin: "finite (reachable nbrs s)"
    and inv: "walk_inv nbrs disp s (JRoom (room_of nbrs disp c)) st"
    and srv: "server st = Some c"
    and fr: "frontier (room_of nbrs disp c) (rooms st) = Some x"
  shows "\<exists>cur' st'. iteration (room_service nbrs disp s) (JRoom (room_of nbrs disp c)) st = Next cur' st'
           \<and> walk_inv nbrs disp s cur' st' \<and> weight nbrs s st' < weight nbrs s st"
proof -
  let ?G = "room_of nbrs disp"
  let ?srv = "room_service nbrs disp s"
  let ?R = "reachable nbrs s"
  let ?K = "known_ids st"
  let ?s1 = "st\<lparr>trail := trail st @ [Rec (?G c)]\<rparr>"
  let ?s3 = "snd (move ?srv x ?s1)"
  from inv srv have cK: "c \<in> ?K" by (auto simp: walk_inv_def)
  from inv have domR: "dom (rooms st) \<subseteq> ?R" by (simp add: walk_inv_def)
  from inv have recK: "\<forall>r. Rec r \<in> set (trail st) \<longrightarrow> xid r \<in> ?K" by (simp add: walk_inv_def)
  from inv have cnt: "length (requests st) = Suc (length (filter is_put (requests st)))"
    by (simp add: walk_inv_def)
  from inv have bud: "length (requests st) + length (filter is_rec (trail st)) + 1 \<le> 2 * card ?K"
    by (simp add: walk_inv_def)
  from inv obtain T where T: "T \<subseteq> comp_edges nbrs s" "card T + 1 = card ?K" "\<forall>e\<in>T. e \<subseteq> ?K"
    by (auto simp: walk_inv_def)
  have KR: "?K \<subseteq> ?R" using known_ids_dom domR by blast
  have Kfin: "finite ?K" using KR fin by (rule finite_subset)
  have cR: "c \<in> ?R" using cK KR by blast
  from fr have xn: "x \<in> set (nbrs c)" and xu: "rooms st x = Some UNKNOWN"
    by (auto simp: frontier_alt find_Some_iff room_of_simps)
  have xR: "x \<in> ?R" using cR xn reachable_step[of c nbrs s x] by blast
  have xK: "x \<notin> ?K" using xu by (simp add: known_ids_def)
  have resp: "?srv (server ?s1) (init PUT (Some x) False) = (Ok (BodyRoom (?G x)), Some x)"
    using xn srv by (simp add: served_move)
  then have ok: "fst (?srv (server ?s1) (init PUT (Some x) False)) = Ok (BodyRoom (?G x))"
    by simp
  note mo = move_ok[where srv = ?srv and st = ?s1 and x = x and r = "?G x"]
  have m1: "fst (move ?srv x ?s1) = Inr (JRoom (?G x))" using mo(1) ok by blast
  have tr3: "trail ?s3 = trail st @ [Rec (?G c), Id x]"
    using mo(2) ok xu by (simp add: room_of_simps cache_stores_iff)
  have ro3: "rooms ?s3 y = (if y = x then Some (Known (?G x))
                           else if get_room (rooms st) y = Undefined \<and> y \<in> set (nbrs x) then Some UNKNOWN
                           else rooms st y)" for y
    using mo(3)[of y] ok xu by (simp add: room_of_simps cache_stores_iff)
  have rq3: "requests ?s3 = requests st @ [init PUT (Some x) False]"
    by (simp add: move_requests)
  have sv3: "server ?s3 = Some x"
    using resp by (simp add: move_requests)
  have it: "iteration ?srv (JRoom (?G c)) st = Next (JRoom (?G x)) ?s3"
    using fr by (simp add: iteration_forward await_def m1)
  have K3: "known_ids ?s3 = insert x ?K"
    by (auto simp: known_ids_def ro3 get_room_iff)
  have card3: "card (known_ids ?s3) = Suc (card ?K)"
    using Kfin xK by (simp add: K3)
  have dom3: "dom (rooms ?s3) \<subseteq> ?R"
  proof
    fix y assume "y \<in> dom (rooms ?s3)"
    then have "y = x \<or> y \<in> set (nbrs x) \<or> y \<in> dom (rooms st)"
      by (auto simp: ro3 dom_def split: if_splits)
    then show "y \<in> ?R" using xR domR reachable_step[of x nbrs s y] by blast
  qed
  have K3R: "known_ids ?s3 \<subseteq> ?R" using known_ids_dom dom3 by blast
  have le: "Suc (card ?K) \<le> card ?R"
    using card_mono[of ?R "known_ids ?s3"] fin K3R card3 by simp
  have rec3: "\<forall>r. Rec r \<in> set (trail ?s3) \<longrightarrow> xid r \<in> known_ids ?s3"
    using recK cK by (auto simp: tr3 K3 room_of_simps)
  have cnt3: "length (requests ?s3) = Suc (length (filter is_put (requests ?s3)))"
    using cnt by (simp add: rq3 is_put_init)
  have bud3: "length (requests ?s3) + length (filter is_rec (trail ?s3)) + 1
                \<le> 2 * card (known_ids ?s3)"
    using bud by (simp add: rq3 tr3 card3)
  have edge: "{c, x} \<in> comp_edges nbrs s" using cR xn comp_edges_mem[of c nbrs s x] by blast
  have fresh_edge: "{c, x} \<notin> T" using T(3) xK by auto
  have "finite (comp_edges nbrs s)" using fin by (simp add: comp_edges_finite)
  with T(1) have Tfin: "finite T" by (rule finite_subset)
  have T3: "insert {c, x} T \<subseteq> comp_edges nbrs s \<and> card (insert {c, x} T) + 1 = card (known_ids ?s3)
             \<and> (\<forall>e\<in>insert {c, x} T. e \<subseteq> known_ids ?s3)"
  proof (intro conjI)
    show "insert {c, x} T \<subseteq> comp_edges nbrs s" using T(1) edge by simp
    show "card (insert {c, x} T) + 1 = card (known_ids ?s3)"
      using T(2) fresh_edge Tfin by (simp add: card3)
    show "\<forall>e\<in>insert {c, x} T. e \<subseteq> known_ids ?s3"
      using T(3) cK by (auto simp: K3)
  qed
  have inv3: "walk_inv nbrs disp s (JRoom (?G x)) ?s3"
    unfolding walk_inv_def
  proof (intro conjI)
    show "\<exists>c. JRoom (?G x) = JRoom (?G c) \<and> server ?s3 = Some c \<and> c \<in> known_ids ?s3"
      using sv3 by (auto simp: K3)
    show "\<exists>T. T \<subseteq> comp_edges nbrs s \<and> card T + 1 = card (known_ids ?s3)
             \<and> (\<forall>e\<in>T. e \<subseteq> known_ids ?s3)"
      using T3 by blast
  qed (rule dom3 rec3 cnt3 bud3)+
  have w: "weight nbrs s ?s3 < weight nbrs s st"
    using le by (simp add: weight_def card3 tr3)
  from it inv3 w show ?thesis by blast
qed

lemma known_ids_trail_update: "known_ids (st\<lparr>trail := t\<rparr>) = known_ids st"
  by (simp add: known_ids_def)

lemma walk_back:
  fixes st :: "(room_id option, 'g) state"
  assumes fin: "finite (reachable nbrs s)"
    and inv: "walk_inv nbrs disp s (JRoom (room_of nbrs disp c)) st"
    and srv: "server st = Some c"
    and fr: "frontier (room_of nbrs disp c) (rooms st) = None"
    and ne: "trail st \<noteq> []"
  shows "\<exists>cur' st'. iteration (room_service nbrs disp s) (JRoom (room_of nbrs disp c)) st = Next cur' st'
           \<and> walk_inv nbrs disp s cur' st' \<and> weight nbrs s st' < weight nbrs s st"
proof -
  let ?G = "room_of nbrs disp"
  let ?srv = "room_service nbrs disp s"
  let ?K = "known_ids st"
  from inv srv have cK: "c \<in> ?K" by (auto simp: walk_inv_def)
  from inv have domR: "dom (rooms st) \<subseteq> reachable nbrs s" by (simp add: walk_inv_def)
  from inv have recK: "\<forall>r. Rec r \<in> set (trail st) \<longrightarrow> xid r \<in> ?K" by (simp add: walk_inv_def)
  from inv have cnt: "length (requests st) = Suc (length (filter is_put (requests st)))"
    by (simp add: walk_inv_def)
  from inv have bud: "length (requests st) + length (filter is_rec (trail st)) + 1 \<le> 2 * card ?K"
    by (simp add: walk_inv_def)
  from inv have tree: "\<exists>T. T \<subseteq> comp_edges nbrs s \<and> card T + 1 = card ?K \<and> (\<forall>e\<in>T. e \<subseteq> ?K)"
    by (simp add: walk_inv_def)
  have it: "iteration ?srv (JRoom (?G c)) st = await (backtrack ?srv (?G c) st)"
    using fr ne by (rule iteration_backtrack)
  from backtrack_cases[of ?srv "?G c" st] show ?thesis
  proof (elim disjE exE conjE)
    let ?s3 = "st\<lparr>trail := []\<rparr>"
    assume "backtrack ?srv (?G c) st = (Inr (JRoom (?G c)), ?s3)"
    then have nx: "iteration ?srv (JRoom (?G c)) st = Next (JRoom (?G c)) ?s3"
      by (simp add: it await_def)
    have "walk_inv nbrs disp s (JRoom (?G c)) ?s3"
      unfolding walk_inv_def known_ids_trail_update
      using cK srv domR cnt bud tree by simp
    moreover have "weight nbrs s ?s3 < weight nbrs s st"
      using ne by (simp add: weight_def known_ids_trail_update)
    ultimately show ?thesis using nx by blast
  next
    fix rest e skipped b
    assume t: "trail st = rest @ e # skipped"
      and ex: "entry_xid e = Some b"
      and bn: "b \<in> set (see (?G c))"
      and bt: "backtrack ?srv (?G c) st = move ?srv b (st\<lparr>trail := rest\<rparr>)"
    let ?s1 = "st\<lparr>trail := rest\<rparr>"
    let ?s3 = "snd (move ?srv b ?s1)"
    from ex obtain r where e: "e = Rec r" and xr: "xid r = b"
      by (cases e) (simp_all add: entry_xid_def)
    have bK: "b \<in> ?K" using recK t e xr by auto
    then obtain k where bk: "rooms st b = Some (Known k)" by (auto simp: known_ids_def)
    have bn': "b \<in> set (nbrs c)" using bn by (simp add: room_of_simps)
    have resp: "?srv (server ?s1) (init PUT (Some b) False) = (Ok (BodyRoom (?G b)), Some b)"
      using bn' srv by (simp add: served_move)
    then have ok: "fst (?srv (server ?s1) (init PUT (Some b) False)) = Ok (BodyRoom (?G b))"
      by simp
    note mo = move_ok[where srv = ?srv and st = ?s1 and x = b and r = "?G b"]
    have m1: "fst (move ?srv b ?s1) = Inr (JRoom (?G b))" using mo(1) ok by blast
    have tr3: "trail ?s3 = rest" using mo(2) ok bk by (simp add: room_of_simps cache_stores_iff)
    have ro3: "rooms ?s3 y = rooms st y" for y
      using mo(3)[of y] ok bk by (simp add: room_of_simps cache_stores_iff)
    have rq3: "requests ?s3 = requests st @ [init PUT (Some b) False]"
      by (simp add: move_requests)
    have sv3: "server ?s3 = Some b" using resp by (simp add: move_requests)
    have nx: "iteration ?srv (JRoom (?G c)) st = Next (JRoom (?G b)) ?s3"
      by (simp add: it bt await_def m1)
    have K3: "known_ids ?s3 = ?K" by (simp add: known_ids_def ro3)
    have dom3: "dom (rooms ?s3) \<subseteq> reachable nbrs s" using domR by (auto simp: dom_def ro3)
    have rec3: "\<forall>r. Rec r \<in> set (trail ?s3) \<longrightarrow> xid r \<in> known_ids ?s3"
      using recK t by (simp add: tr3 K3)
    have cnt3: "length (requests ?s3) = Suc (length (filter is_put (requests ?s3)))"
      using cnt by (simp add: rq3 is_put_init)
    have bud3: "length (requests ?s3) + length (filter is_rec (trail ?s3)) + 1
                  \<le> 2 * card (known_ids ?s3)"
      using bud by (simp add: rq3 tr3 K3 t e)
    have "walk_inv nbrs disp s (JRoom (?G b)) ?s3"
      unfolding walk_inv_def
    proof (intro conjI)
      show "\<exists>c. JRoom (?G b) = JRoom (?G c) \<and> server ?s3 = Some c \<and> c \<in> known_ids ?s3"
        using sv3 bK by (auto simp: K3)
      show "\<exists>T. T \<subseteq> comp_edges nbrs s \<and> card T + 1 = card (known_ids ?s3)
             \<and> (\<forall>e\<in>T. e \<subseteq> known_ids ?s3)"
        using tree by (simp add: K3)
    qed (rule dom3 rec3 cnt3 bud3)+
    moreover have "weight nbrs s ?s3 < weight nbrs s st"
      by (simp add: weight_def K3 tr3 t)
    ultimately show ?thesis using nx by blast
  qed
qed

lemma walk_step:
  fixes st :: "(room_id option, 'g) state"
  assumes fin: "finite (reachable nbrs s)"
    and inv: "walk_inv nbrs disp s current st"
  shows "iteration (room_service nbrs disp s) current st = Halt None st
         \<or> (\<exists>cur' st'. iteration (room_service nbrs disp s) current st = Next cur' st'
              \<and> walk_inv nbrs disp s cur' st' \<and> weight nbrs s st' < weight nbrs s st)"
proof -
  from inv obtain c where c: "current = JRoom (room_of nbrs disp c)" and srv: "server st = Some c"
    by (auto simp: walk_inv_def)
  show ?thesis
  proof (cases "frontier (room_of nbrs disp c) (rooms st)")
    case (Some x)
    from walk_forward[OF fin inv[unfolded c] srv Some] show ?thesis by (simp add: c)
  next
    case None
    show ?thesis
    proof (cases "trail st = []")
      case True
      with None show ?thesis by (simp add: c iteration_done)
    next
      case False
      from walk_back[OF fin inv[unfolded c] srv None False] show ?thesis by (simp add: c)
    qed
  qed
qed

lemma walk_loop:
  fixes st :: "(room_id option, 'g) state"
  assumes fin: "finite (reachable nbrs s)"
  shows "walk_inv nbrs disp s current st \<Longrightarrow> weight nbrs s st < n \<Longrightarrow>
     \<exists>cur' st'. loop n (room_service nbrs disp s) current st = Some (None, st')
        \<and> walk_inv nbrs disp s cur' st'"
proof (induction n arbitrary: current st)
  case 0
  then show ?case by simp
next
  case (Suc n)
  from walk_step[OF fin Suc.prems(1)] show ?case
  proof (elim disjE exE conjE)
    assume "iteration (room_service nbrs disp s) current st = Halt None st"
    then have "loop (Suc n) (room_service nbrs disp s) current st = Some (None, st)" by simp
    with Suc.prems(1) show ?thesis by blast
  next
    fix cur' st'
    assume nx: "iteration (room_service nbrs disp s) current st = Next cur' st'"
      and inv': "walk_inv nbrs disp s cur' st'"
      and w: "weight nbrs s st' < weight nbrs s st"
    from w Suc.prems(2) have "weight nbrs s st' < n" by simp
    from Suc.IH[OF inv' this] nx show ?thesis by simp
  qed
qed

lemma walk_begin:
  fixes st0 :: "(room_id option, 'g) state"
  assumes "st0 = snd (begin_session (room_service nbrs disp s) (init_state None))"
    and own: "s \<notin> set proto_names"
  shows "fst (begin_session (room_service nbrs disp s) (init_state None :: (room_id option, 'g) state))
           = Inr (JRoom (room_of nbrs disp s))"
    and "walk_inv nbrs disp s (JRoom (room_of nbrs disp s)) st0"
proof -
  let ?G = "room_of nbrs disp"
  let ?srv = "room_service nbrs disp s"
  let ?i = "init_state None :: (room_id option, 'g) state"
  have resp: "?srv (server ?i) (init GET None True) = (Ok (BodyRoom (?G s)), Some s)"
    by (simp add: served_begin)
  then have ok: "fst (?srv (server ?i) (init GET None True)) = Ok (BodyRoom (?G s))" by simp
  note bo = begin_ok[where srv = ?srv and st = ?i and r = "?G s"]
  show "fst (begin_session ?srv ?i) = Inr (JRoom (?G s))" using bo(1) ok by blast
  have tr: "trail st0 = [Id s]"
    using bo(2) ok own by (simp add: assms(1) room_of_simps init_state_def cache_stores_iff)
  have ro: "rooms st0 y = (if y = s then Some (Known (?G s))
                           else if y \<in> set (nbrs s) \<and> y \<notin> set proto_names then Some UNKNOWN
                           else None)" for y
    using bo(3)[of y] ok own
    by (simp add: assms(1) room_of_simps init_state_def cache_stores_iff get_room_iff)
  have sv: "server st0 = Some s" using bo(4) ok resp by (simp add: assms(1))
  have rq: "requests st0 = [init GET None True]"
    by (simp add: assms(1) begin_requests init_state_def)
  have K: "known_ids st0 = {s}" by (auto simp: known_ids_def ro)
  have dm: "dom (rooms st0) \<subseteq> reachable nbrs s"
  proof
    fix y assume "y \<in> dom (rooms st0)"
    then have "y = s \<or> y \<in> set (nbrs s)" by (auto simp: ro dom_def split: if_splits)
    then show "y \<in> reachable nbrs s"
      using reachable_start[of s nbrs] reachable_step[of s nbrs s y] by blast
  qed
  show "walk_inv nbrs disp s (JRoom (?G s)) st0"
    unfolding walk_inv_def
  proof (intro conjI)
    show "\<exists>c. JRoom (?G s) = JRoom (?G c) \<and> server st0 = Some c \<and> c \<in> known_ids st0"
      using sv by (auto simp: K)
    show "dom (rooms st0) \<subseteq> reachable nbrs s" by (rule dm)
    show "\<forall>r. Rec r \<in> set (trail st0) \<longrightarrow> xid r \<in> known_ids st0" by (simp add: tr)
    show "length (requests st0) = Suc (length (filter is_put (requests st0)))"
      by (simp add: rq is_put_init)
    show "length (requests st0) + length (filter is_rec (trail st0)) + 1 \<le> 2 * card (known_ids st0)"
      by (simp add: rq tr K)
    have "{} \<subseteq> comp_edges nbrs s \<and> card ({} :: room_id set set) + 1 = card (known_ids st0)
            \<and> (\<forall>e\<in>{}. e \<subseteq> known_ids st0)" by (simp add: K)
    then show "\<exists>T. T \<subseteq> comp_edges nbrs s \<and> card T + 1 = card (known_ids st0)
             \<and> (\<forall>e\<in>T. e \<subseteq> known_ids st0)" by blast
  qed
qed

lemma walk_begin_inherited:
  fixes disp :: "room_id \<Rightarrow> 'g"
  assumes inh: "s \<in> set proto_names"
  shows "\<exists>st. main (Suc 0) (room_service nbrs disp s) (init_state None :: (room_id option, 'g) state)
                = Some (None, st)
           \<and> requests st = [init GET None True]"
proof -
  let ?G = "room_of nbrs disp"
  let ?srv = "room_service nbrs disp s"
  let ?i = "init_state None :: (room_id option, 'g) state"
  let ?st0 = "snd (begin_session ?srv ?i)"
  have ok: "fst (?srv (server ?i) (init GET None True)) = Ok (BodyRoom (?G s))"
    by (simp add: served_begin)
  note bo = begin_ok[where srv = ?srv and st = ?i and r = "?G s"]
  have b: "fst (begin_session ?srv ?i) = Inr (JRoom (?G s))" using bo(1) ok by blast
  have tr: "trail ?st0 = []"
    using bo(2) ok inh by (simp add: room_of_simps init_state_def cache_stores_iff)
  have ro: "rooms ?st0 y = None" for y
    using bo(3)[of y] ok inh by (simp add: room_of_simps init_state_def cache_stores_iff)
  have rq: "requests ?st0 = [init GET None True]"
    by (simp add: begin_requests init_state_def)
  have "frontier (?G s) (rooms ?st0) = None"
    by (simp add: frontier_alt find_None_iff ro)
  then have "iteration ?srv (JRoom (?G s)) ?st0 = Halt None ?st0"
    using tr by (rule iteration_done)
  then have "loop (Suc 0) ?srv (JRoom (?G s)) ?st0 = Some (None, ?st0)" by simp
  then have "main (Suc 0) ?srv ?i = Some (None, ?st0)"
    using b by (simp add: main_def await_def del: loop.simps)
  with rq show ?thesis by blast
qed

lemma cache_effect:
  "\<exists>st'. cache (JRoom r) st = Inr (JRoom r, st') \<and>
     (cache_stores (rooms st) (xid r) \<longrightarrow>
        rooms st' (xid r) = Some (Known r) \<and>
        (\<forall>y. y \<noteq> xid r \<longrightarrow>
           rooms st' y = (if y \<in> set (see r) \<and> get_room (rooms st) y = Undefined
                          then Some UNKNOWN else rooms st y)))
     \<and> (\<not> cache_stores (rooms st) (xid r) \<longrightarrow> st' = st)
     \<and> remember x (remember x st) = remember x st"
  by (auto simp: cache_room foldl_remember_rooms get_room_iff remember_idem)

lemma walk_inv_bound:
  fixes st :: "(room_id option, 'g) state"
  assumes fin: "finite (reachable nbrs s)" and inv: "walk_inv nbrs disp s current st"
  shows "length (requests st) \<le> 2 * card (comp_edges nbrs s) + 1"
    and "length (filter is_put (requests st)) \<le> 2 * card (comp_edges nbrs s)"
proof -
  from inv obtain T where T: "T \<subseteq> comp_edges nbrs s" "card T + 1 = card (known_ids st)"
    by (auto simp: walk_inv_def)
  from inv have bud: "length (requests st) + 1 \<le> 2 * card (known_ids st)"
    by (simp add: walk_inv_def)
  from inv have cnt: "length (requests st) = Suc (length (filter is_put (requests st)))"
    by (simp add: walk_inv_def)
  have "card T \<le> card (comp_edges nbrs s)"
    using T(1) comp_edges_finite[of nbrs s] fin by (simp add: card_mono)
  with T(2) bud show "length (requests st) \<le> 2 * card (comp_edges nbrs s) + 1" by simp
  with cnt show "length (filter is_put (requests st)) \<le> 2 * card (comp_edges nbrs s)" by simp
qed

lemma reachable_subset:
  assumes "s \<in> V" and "\<forall>x\<in>V. set (nbrs x) \<subseteq> V"
  shows "reachable nbrs s \<subseteq> V"
proof
  fix y assume "y \<in> reachable nbrs s"
  then have "(s, y) \<in> rtrancl (edge_rel nbrs)" by (simp add: reachable_def)
  then show "y \<in> V"
  proof (induction rule: rtrancl_induct)
    case base
    show ?case by (rule assms(1))
  next
    case (step y z)
    then show ?case using assms(2) by (auto simp: edge_rel_def)
  qed
qed

section \<open>The cache\<close>

text \<open>
  C10. \<open>cache\<close> is not total: on \<open>undefined\<close> and on \<open>null\<close> the guard \<open>room &&\<close> only
  protects the first disjunct; the second disjunct evaluates \<open>room.xid\<close> and the call
  throws a TypeError.
\<close>

theorem cache_not_total:
  "cache JUndefined st = Inl TypeError \<and> cache JNull st = Inl TypeError
   \<and> cache_guard JUndefined rs = Inl TypeError \<and> cache_guard JNull rs = Inl TypeError"
  by (simp add: cache_def cache_guard_def truthy_def get_xid_def)

text \<open>
  C8, evaluated. \<open>cache\<close> returns the record it is given, but it does not store every
  record whose identifier has not been seen, nor mark every neighbour that has not been
  seen: for a name that \<open>rooms\<close> inherits from \<open>Object.prototype\<close> the test against
  \<open>undefined\<close> fails. On the empty cache the room \<open>constructor\<close> is not stored and nothing
  is pushed; the neighbour \<open>toString\<close> of a room is not marked while its neighbour \<open>B\<close>
  is; and a walk that starts in the room \<open>constructor\<close> ends after the initial fetch,
  its neighbour \<open>B\<close> never fetched.
\<close>

theorem cache_inherited_names:
  "rooms ex_init ''constructor'' = None
   \<and> cache (JRoom proto_room) ex_init = Inr (JRoom proto_room, ex_init)
   \<and> fst (projr (cache (JRoom vane_room) ex_init)) = JRoom vane_room
   \<and> rooms (snd (projr (cache (JRoom vane_room) ex_init))) ''A'' = Some (Known vane_room)
   \<and> rooms ex_init ''toString'' = None
   \<and> rooms (snd (projr (cache (JRoom vane_room) ex_init))) ''toString'' = None
   \<and> rooms (snd (projr (cache (JRoom vane_room) ex_init))) ''B'' = Some UNKNOWN
   \<and> round_trips (main 10 proto_service ex_init) = 1"
proof -
  have n: "''constructor'' \<in> set proto_names" "''toString'' \<in> set proto_names"
    "''B'' \<notin> set proto_names" "''A'' \<notin> set proto_names"
    by (simp_all add: proto_names_def)
  have e: "rooms ex_init x = None" for x by (simp add: ex_init_def init_state_def)
  have xs: "xid proto_room = ''constructor''" "xid vane_room = ''A''"
    "see vane_room = [''toString'', ''B'']"
    by (simp_all add: proto_room_def vane_room_def)
  have p: "cache (JRoom proto_room) ex_init = Inr (JRoom proto_room, ex_init)"
    using n by (simp add: cache_room cache_stores_iff e xs)
  have v: "cache (JRoom vane_room) ex_init
             = Inr (JRoom vane_room,
                 foldl (\<lambda>s x. remember x s)
                   (ex_init\<lparr>trail := trail ex_init @ [Id (xid vane_room)],
                            rooms := (rooms ex_init)(xid vane_room \<mapsto> Known vane_room)\<rparr>)
                   (see vane_room))"
    using n by (simp add: cache_room cache_stores_iff e xs)
  have a: "rooms (snd (projr (cache (JRoom vane_room) ex_init))) ''A'' = Some (Known vane_room)"
    and t: "rooms (snd (projr (cache (JRoom vane_room) ex_init))) ''toString'' = None"
    and b: "rooms (snd (projr (cache (JRoom vane_room) ex_init))) ''B'' = Some UNKNOWN"
    using n by (simp_all add: v remember_rooms get_room_iff e xs)
  have r: "round_trips (main 10 proto_service ex_init) = 1"
    unfolding proto_service_def ex_init_def by code_simp
  from e p v a t b r show ?thesis by simp
qed

text \<open>
  C5. Under every sequence of calls of \<open>cache\<close> and \<open>remember\<close>, and over a whole run of
  \<open>main\<close>, the entry of an identifier never moves backward among absent, \<open>UNKNOWN\<close> and
  fetched, and a fetched record stays the record it is.
\<close>

theorem cache_state_monotone:
  "rank (rooms st y) \<le> rank (rooms (foldl (\<lambda>s opn. apply_op opn s) st ops) y)
   \<and> (rooms st y = Some (Known r) \<longrightarrow>
        rooms (foldl (\<lambda>s opn. apply_op opn s) st ops) y = Some (Known r))
   \<and> (main n srv st = Some (e, st') \<longrightarrow>
        rank (rooms st y) \<le> rank (rooms st' y)
        \<and> (rooms st y = Some (Known r) \<longrightarrow> rooms st' y = Some (Known r)))"
proof -
  have a: "advances (rooms st y) (rooms (foldl (\<lambda>s opn. apply_op opn s) st ops) y)"
    by (rule ops_advance)
  have b: "advances (rooms st y) (rooms st' y)" if m: "main n srv st = Some (e, st')"
  proof (cases "fst (begin_session srv st)")
    case (Inl err)
    with m have "st' = snd (begin_session srv st)" by (simp add: main_def await_def)
    then show ?thesis by (simp add: begin_advances)
  next
    case (Inr cur)
    with m have "loop n srv cur (snd (begin_session srv st)) = Some (e, st')"
      by (simp add: main_def await_def)
    from loop_advances[OF this, of y] begin_advances[of st y srv]
    show ?thesis by (rule advances_trans[rotated])
  qed
  from a b show ?thesis by (auto simp: advances_def)
qed

theorem cache_state_monotone_witness:
  "rooms ex_entered ''A'' = Some (Known (ex_room ''A'')) \<and>
   rooms (foldl (\<lambda>s opn. apply_op opn s) ex_entered
            [OpCache (JRoom \<lparr>xid = ''A'', see = [], geom = ()\<rparr>), OpRemember ''A'', OpCache JNull])
      ''A'' = Some (Known (ex_room ''A'')) \<and>
   (\<exists>e st'. main 10 ex_service ex_entered = Some (e, st') \<and>
      rooms st' ''A'' = Some (Known (ex_room ''A'')))"
proof -
  have k: "rooms ex_entered ''A'' = Some (Known (ex_room ''A''))"
    unfolding ex_entered_def ex_service_def ex_init_def by code_simp
  have "main 10 ex_service ex_entered \<noteq> None"
    unfolding ex_entered_def ex_service_def ex_init_def by code_simp
  then obtain e st' where m: "main 10 ex_service ex_entered = Some (e, st')" by auto
  from cache_state_monotone[of ex_entered "''A''" _ "ex_room ''A''" 10 ex_service e st'] k m
  show ?thesis by blast
qed

section \<open>The choice of the next room\<close>

text \<open>
  C7. The identifier chosen in a pass of the loop is the first one of the neighbour list
  of the current room, from the left, whose entry is \<open>UNKNOWN\<close>, and the pass moves
  there; there is none exactly when no neighbour is \<open>UNKNOWN\<close>. An identifier that holds a fetched record is not chosen
  in any later pass.
\<close>

theorem frontier_first_unknown:
  "(frontier c (rooms st) = Some x \<longrightarrow>
      (\<exists>pre post. see c = pre @ x # post \<and> rooms st x = Some UNKNOWN
         \<and> (\<forall>y\<in>set pre. rooms st y \<noteq> Some UNKNOWN)))
   \<and> (frontier c (rooms st) = Some x \<longrightarrow>
        iteration srv (JRoom c) st = await (move srv x (st\<lparr>trail := trail st @ [Rec c]\<rparr>)))
   \<and> (frontier c (rooms st) = None \<longrightarrow> (\<forall>y\<in>set (see c). rooms st y \<noteq> Some UNKNOWN))
   \<and> (rooms st x = Some (Known r) \<and> passes n srv current st = Some (JRoom c', st')
        \<longrightarrow> frontier c' (rooms st') \<noteq> Some x)"
proof (intro conjI impI)
  assume "frontier c (rooms st) = Some x"
  then show "iteration srv (JRoom c) st = await (move srv x (st\<lparr>trail := trail st @ [Rec c]\<rparr>))"
    by (rule iteration_forward)
next
  assume "frontier c (rooms st) = Some x"
  then show "\<exists>pre post. see c = pre @ x # post \<and> rooms st x = Some UNKNOWN
         \<and> (\<forall>y\<in>set pre. rooms st y \<noteq> Some UNKNOWN)"
    unfolding frontier_alt find_Some_iff
    by (metis append_take_drop_id Cons_nth_drop_Suc in_set_conv_nth length_take min.absorb2
          nth_take less_imp_le)
next
  assume "frontier c (rooms st) = None"
  then show "\<forall>y\<in>set (see c). rooms st y \<noteq> Some UNKNOWN"
    by (simp add: frontier_alt find_None_iff)
next
  assume a: "rooms st x = Some (Known r) \<and> passes n srv current st = Some (JRoom c', st')"
  then have "advances (rooms st x) (rooms st' x)"
    using passes_advances[of n srv current st "JRoom c'" st' x] by blast
  with a have k: "rooms st' x = Some (Known r)" by (simp add: advances_def)
  show "frontier c' (rooms st') \<noteq> Some x"
  proof
    assume "frontier c' (rooms st') = Some x"
    then have "rooms st' x = Some UNKNOWN" by (auto simp: frontier_alt find_Some_iff)
    with k show False by simp
  qed
qed

theorem frontier_first_unknown_witness:
  "frontier (ex_room ''A'') (rooms ex_entered) = Some ''B'' \<and>
   (\<exists>pre post. see (ex_room ''A'') = pre @ ''B'' # post \<and> rooms ex_entered ''B'' = Some UNKNOWN) \<and>
   frontier (ex_room ''D'') (rooms ex_entered) = None \<and>
   rooms ex_entered ''A'' = Some (Known (ex_room ''A'')) \<and>
   (\<exists>st'. passes 1 ex_service (JRoom (ex_room ''A'')) ex_entered = Some (JRoom (ex_room ''B''), st')
      \<and> frontier (ex_room ''B'') (rooms st') \<noteq> Some ''A'')"
proof -
  have f: "frontier (ex_room ''A'') (rooms ex_entered) = Some ''B''"
    unfolding ex_entered_def ex_service_def ex_init_def by code_simp
  have g: "frontier (ex_room ''D'') (rooms ex_entered) = None"
    unfolding ex_entered_def ex_service_def ex_init_def by code_simp
  have k: "rooms ex_entered ''A'' = Some (Known (ex_room ''A''))"
    unfolding ex_entered_def ex_service_def ex_init_def by code_simp
  have "map_option fst (passes 1 ex_service (JRoom (ex_room ''A'')) ex_entered)
          = Some (JRoom (ex_room ''B''))"
    unfolding ex_entered_def ex_service_def ex_init_def by code_simp
  then obtain st' where
    p: "passes 1 ex_service (JRoom (ex_room ''A'')) ex_entered = Some (JRoom (ex_room ''B''), st')"
    by auto
  note t = frontier_first_unknown[where c = "ex_room ''A''" and st = ex_entered and x = "''B''"]
  note u = frontier_first_unknown[where c = "ex_room ''D''" and st = ex_entered and x = "''A''"
             and r = "ex_room ''A''" and n = 1 and srv = ex_service
             and current = "JRoom (ex_room ''A'')" and c' = "ex_room ''B''" and st' = st']
  from t f have "\<exists>pre post. see (ex_room ''A'') = pre @ ''B'' # post
      \<and> rooms ex_entered ''B'' = Some UNKNOWN" by blast
  moreover from u k p have "frontier (ex_room ''B'') (rooms st') \<noteq> Some ''A''" by blast
  ultimately show ?thesis using f g k p by blast
qed

section \<open>Backtracking\<close>

text \<open>
  C6. In a pass where no neighbour of the current room is \<open>UNKNOWN\<close> and the trail is
  not empty, the entries are popped from the top; the pass moves to the first popped
  entry \<open>back\<close> for which \<open>back.xid\<close> is in the neighbour list of the current room,
  having popped that entry and all above it, sends the request of that move, and the
  loop goes on with the result. When no entry qualifies the trail is emptied,
  \<open>current\<close> is kept, and the next pass ends the loop: no request is sent.
\<close>

theorem backtracking_pass:
  assumes "frontier c (rooms st) = None" and "trail st \<noteq> []"
  shows "(trail st = rest @ e # skipped \<and> adjacent c e \<and> (\<forall>e'\<in>set skipped. \<not> adjacent c e') \<longrightarrow>
            (\<exists>b. entry_xid e = Some b \<and> b \<in> set (see c)
               \<and> iteration srv (JRoom c) st = await (move srv b (st\<lparr>trail := rest\<rparr>))
               \<and> requests (snd (move srv b (st\<lparr>trail := rest\<rparr>)))
                    = requests st @ [init PUT (Some b) False]))
       \<and> ((\<forall>e\<in>set (trail st). \<not> adjacent c e) \<longrightarrow>
            iteration srv (JRoom c) st = Next (JRoom c) (st\<lparr>trail := []\<rparr>)
            \<and> loop (Suc (Suc n)) srv (JRoom c) st = Some (None, st\<lparr>trail := []\<rparr>))"
proof (intro conjI impI)
  assume a: "trail st = rest @ e # skipped \<and> adjacent c e \<and> (\<forall>e'\<in>set skipped. \<not> adjacent c e')"
  then obtain b where b: "entry_xid e = Some b" "b \<in> set (see c)"
    by (auto simp: adjacent_def split: option.splits)
  from a b have "backtrack srv c st = move srv b (st\<lparr>trail := rest\<rparr>)"
    by (intro backtrack_found) auto
  with assms b show "\<exists>b. entry_xid e = Some b \<and> b \<in> set (see c)
               \<and> iteration srv (JRoom c) st = await (move srv b (st\<lparr>trail := rest\<rparr>))
               \<and> requests (snd (move srv b (st\<lparr>trail := rest\<rparr>)))
                    = requests st @ [init PUT (Some b) False]"
    by (simp add: iteration_backtrack move_requests)
next
  assume "\<forall>e\<in>set (trail st). \<not> adjacent c e"
  then have bt: "backtrack srv c st = (Inr (JRoom c), st\<lparr>trail := []\<rparr>)"
    by (rule backtrack_exhausted)
  with assms show "iteration srv (JRoom c) st = Next (JRoom c) (st\<lparr>trail := []\<rparr>)"
    by (simp add: iteration_backtrack await_def)
  with assms show "loop (Suc (Suc n)) srv (JRoom c) st = Some (None, st\<lparr>trail := []\<rparr>)"
    by (simp add: iteration_done)
qed

theorem backtracking_pass_witness:
  "frontier (ex_room ''B'') (rooms ex_at_B) = None \<and> trail ex_at_B \<noteq> [] \<and>
   trail ex_at_B = [Id ''A''] @ Rec (ex_room ''A'') # [Id ''B''] \<and>
   adjacent (ex_room ''B'') (Rec (ex_room ''A'')) \<and> \<not> adjacent (ex_room ''B'') (Id ''B'') \<and>
   iteration ex_service (JRoom (ex_room ''B'')) ex_at_B
     = await (move ex_service ''A'' (ex_at_B\<lparr>trail := [Id ''A'']\<rparr>)) \<and>
   frontier (ex_room ''A'') (rooms single_entered) = None \<and> trail single_entered = [Id ''A''] \<and>
   loop (Suc (Suc 0)) single_service (JRoom (ex_room ''A'')) single_entered
     = Some (None, single_entered\<lparr>trail := []\<rparr>)"
proof -
  have f: "frontier (ex_room ''B'') (rooms ex_at_B) = None"
    unfolding ex_at_B_def ex_entered_def ex_service_def ex_init_def by code_simp
  have t: "trail ex_at_B = [Id ''A''] @ Rec (ex_room ''A'') # [Id ''B'']"
    unfolding ex_at_B_def ex_entered_def ex_service_def ex_init_def by code_simp
  then have n: "trail ex_at_B \<noteq> []" by simp
  have a: "adjacent (ex_room ''B'') (Rec (ex_room ''A''))"
    and s: "\<not> adjacent (ex_room ''B'') (Id ''B'')"
    by (simp_all add: adjacent_def entry_xid_def ex_room_def room_of_def ex_nbrs_def)
  have x: "entry_xid (Rec (ex_room ''A'')) = Some ''A''"
    by (simp add: entry_xid_def ex_room_def room_of_def)
  from backtracking_pass[where c = "ex_room ''B''" and st = ex_at_B and rest = "[Id ''A'']"
         and e = "Rec (ex_room ''A'')" and skipped = "[Id ''B'']" and srv = ex_service and n = 0]
    f n t a s x
  have i: "iteration ex_service (JRoom (ex_room ''B'')) ex_at_B
     = await (move ex_service ''A'' (ex_at_B\<lparr>trail := [Id ''A'']\<rparr>))"
    by auto
  have f': "frontier (ex_room ''A'') (rooms single_entered) = None"
    unfolding single_entered_def single_service_def ex_init_def by code_simp
  have t': "trail single_entered = [Id ''A'']"
    unfolding single_entered_def single_service_def ex_init_def by code_simp
  then have n': "trail single_entered \<noteq> []" by simp
  have "\<forall>e\<in>set (trail single_entered). \<not> adjacent (ex_room ''A'') e"
    by (simp add: t' adjacent_def entry_xid_def)
  with backtracking_pass[where c = "ex_room ''A''" and st = single_entered
         and srv = single_service and n = 0] f' n'
  have "loop (Suc (Suc 0)) single_service (JRoom (ex_room ''A'')) single_entered
     = Some (None, single_entered\<lparr>trail := []\<rparr>)"
    by blast
  with f n t a s i f' t' show ?thesis by blast
qed

section \<open>The trail\<close>

text \<open>
  C2, as the code has it. The claim that the trail is empty once the starting room has
  been fetched, stored and made current fails: \<open>cache\<close> has pushed the identifier of
  the starting room.
\<close>

theorem trail_after_begin_counterexample:
  "fst (begin_session ex_service ex_init) = Inr (JRoom (ex_room ''A''))
   \<and> rooms (snd (begin_session ex_service ex_init)) ''A'' = Some (Known (ex_room ''A''))
   \<and> trail (snd (begin_session ex_service ex_init)) = [Id ''A'']
   \<and> trail (snd (begin_session ex_service ex_init)) \<noteq> []"
  unfolding ex_service_def ex_init_def by code_simp

text \<open>
  C2, amended. After the initial fetch of a starting room whose identifier is not a
  name inherited from \<open>Object.prototype\<close>, the trail holds exactly one entry, the
  identifier of the starting room, and the room is stored. In a pass that finds an \<open>UNKNOWN\<close> neighbour the
  record of the current room is pushed before the request, and \<open>cache\<close> pushes the
  identifier of the fetched room if that room held no record yet: a move answered
  with the room asked for pushes both. In a pass that finds no \<open>UNKNOWN\<close> neighbour
  entries are popped from the top, and the only push possible is again the one of
  \<open>cache\<close> for a room without a record.
\<close>

theorem trail_discipline:
  "(fst (begin_session srv (init_state s0 :: ('s, 'g) state)) = Inr v \<longrightarrow>
      (\<exists>r. v = JRoom r \<and>
         (xid r \<notin> set proto_names \<longrightarrow>
            trail (snd (begin_session srv (init_state s0))) = [Id (xid r)]
            \<and> rooms (snd (begin_session srv (init_state s0))) (xid r) = Some (Known r))))
   \<and> (frontier c (rooms st) = Some x \<longrightarrow>
      (\<exists>pushed. trail (flow_state (iteration srv (JRoom c) st)) = trail st @ Rec c # pushed
         \<and> cache_pushed st (flow_state (iteration srv (JRoom c) st)) pushed))
   \<and> (frontier c (rooms st) = Some x \<and> iteration srv (JRoom c) st = Next (JRoom r) st' \<and> xid r = x
        \<longrightarrow> trail st' = trail st @ [Rec c, Id x])
   \<and> (frontier c (rooms st) = None \<longrightarrow>
      (\<exists>k pushed. trail (flow_state (iteration srv (JRoom c) st)) = take k (trail st) @ pushed
         \<and> cache_pushed st (flow_state (iteration srv (JRoom c) st)) pushed))"
proof (intro conjI impI)
  let ?i = "init_state s0 :: ('s, 'g) state"
  assume ok: "fst (begin_session srv ?i) = Inr v"
  from begin_cases[of srv ?i] ok obtain r where
    r: "fst (begin_session srv ?i) = Inr (JRoom r)"
    and c: "cache (JRoom r) (snd (req srv GET None True ?i)) = Inr (JRoom r, snd (begin_session srv ?i))"
    by auto
  have "trail (snd (begin_session srv ?i)) = [Id (xid r)]
      \<and> rooms (snd (begin_session srv ?i)) (xid r) = Some (Known r)"
    if own: "xid r \<notin> set proto_names"
  proof -
    have "cache_stores (rooms (snd (req srv GET None True ?i))) (xid r)"
      using own by (simp add: req_fields init_state_def cache_stores_iff)
    with cache_trail[OF c] show ?thesis by (simp add: req_fields init_state_def)
  qed
  with r ok show "\<exists>r. v = JRoom r \<and>
         (xid r \<notin> set proto_names \<longrightarrow>
            trail (snd (begin_session srv ?i)) = [Id (xid r)]
            \<and> rooms (snd (begin_session srv ?i)) (xid r) = Some (Known r))" by auto
next
  assume f: "frontier c (rooms st) = Some x"
  let ?s1 = "st\<lparr>trail := trail st @ [Rec c]\<rparr>"
  have fs: "flow_state (iteration srv (JRoom c) st) = snd (move srv x ?s1)"
    by (simp add: iteration_forward[OF f] await_def split: sum.splits)
  from move_trail[of srv x ?s1] show "\<exists>pushed. trail (flow_state (iteration srv (JRoom c) st))
         = trail st @ Rec c # pushed
         \<and> cache_pushed st (flow_state (iteration srv (JRoom c) st)) pushed"
    by (auto simp: fs cache_pushed_def)
next
  assume a: "frontier c (rooms st) = Some x \<and> iteration srv (JRoom c) st = Next (JRoom r) st' \<and> xid r = x"
  let ?s1 = "st\<lparr>trail := trail st @ [Rec c]\<rparr>"
  from a have u: "rooms st x = Some UNKNOWN" by (auto simp: frontier_alt find_Some_iff)
  from a have f: "frontier c (rooms st) = Some x"
    and it: "iteration srv (JRoom c) st = Next (JRoom r) st'" by simp_all
  have nx: "await (move srv x ?s1) = Next (JRoom r) st'"
    using iteration_forward[OF f, of srv] it by simp
  from move_cases[of srv x ?s1] show "trail st' = trail st @ [Rec c, Id x]"
  proof (elim disjE exE conjE)
    fix e assume "move srv x ?s1 = (Inl e, snd (req srv PUT (Some x) False ?s1))"
    with nx show ?thesis by (simp add: await_def)
  next
    fix r' st1
    assume c: "cache (JRoom r') (snd (req srv PUT (Some x) False ?s1)) = Inr (JRoom r', st1)"
      and m: "move srv x ?s1 = (Inr (JRoom r'), st1\<lparr>painted := painted st1 @ [r']\<rparr>)"
    from m nx have e: "r' = r" "st' = st1\<lparr>painted := painted st1 @ [r']\<rparr>" by (auto simp: await_def)
    from cache_trail(1)[OF c] e a u show ?thesis by (simp add: req_fields cache_stores_iff)
  qed
next
  assume f: "frontier c (rooms st) = None"
  show "\<exists>k pushed. trail (flow_state (iteration srv (JRoom c) st)) = take k (trail st) @ pushed
         \<and> cache_pushed st (flow_state (iteration srv (JRoom c) st)) pushed"
  proof (cases "trail st = []")
    case True
    with f have "iteration srv (JRoom c) st = Halt None st" by (rule iteration_done)
    then have "trail (flow_state (iteration srv (JRoom c) st)) = take 0 (trail st) @ []
         \<and> cache_pushed st (flow_state (iteration srv (JRoom c) st)) []"
      using True by (simp add: cache_pushed_def)
    then show ?thesis by blast
  next
    case False
    have fs: "flow_state (iteration srv (JRoom c) st) = snd (backtrack srv c st)"
      by (simp add: iteration_backtrack[OF f False] await_def split: sum.splits)
    from backtrack_cases[of srv c st] show ?thesis
    proof (elim disjE exE conjE)
      assume "backtrack srv c st = (Inr (JRoom c), st\<lparr>trail := []\<rparr>)"
      then have "trail (flow_state (iteration srv (JRoom c) st)) = take 0 (trail st) @ []
         \<and> cache_pushed st (flow_state (iteration srv (JRoom c) st)) []"
        by (simp add: fs cache_pushed_def)
      then show ?thesis by blast
    next
      fix rest e skipped b
      assume t: "trail st = rest @ e # skipped"
        and bt: "backtrack srv c st = move srv b (st\<lparr>trail := rest\<rparr>)"
      from move_trail[of srv b "st\<lparr>trail := rest\<rparr>"] obtain pushed where
        p: "trail (snd (move srv b (st\<lparr>trail := rest\<rparr>))) = rest @ pushed"
           "cache_pushed (st\<lparr>trail := rest\<rparr>) (snd (move srv b (st\<lparr>trail := rest\<rparr>))) pushed"
        by auto
      have "take (length rest) (trail st) = rest" by (simp add: t)
      with p have "trail (flow_state (iteration srv (JRoom c) st)) = take (length rest) (trail st) @ pushed
         \<and> cache_pushed st (flow_state (iteration srv (JRoom c) st)) pushed"
        by (simp add: fs bt cache_pushed_def)
      then show ?thesis by blast
    qed
  qed
qed

theorem trail_discipline_witness:
  "fst (begin_session ex_service (init_state None)) = Inr (JRoom (ex_room ''A'')) \<and>
   xid (ex_room ''A'') \<notin> set proto_names \<and>
   trail (snd (begin_session ex_service (init_state None))) = [Id ''A''] \<and>
   frontier (ex_room ''A'') (rooms ex_entered) = Some ''B'' \<and>
   (\<exists>st'. iteration ex_service (JRoom (ex_room ''A'')) ex_entered = Next (JRoom (ex_room ''B'')) st'
      \<and> trail st' = trail ex_entered @ [Rec (ex_room ''A''), Id ''B'']) \<and>
   frontier (ex_room ''B'') (rooms ex_at_B) = None \<and>
   (\<exists>k pushed. trail (flow_state (iteration ex_service (JRoom (ex_room ''B'')) ex_at_B))
      = take k (trail ex_at_B) @ pushed)"
proof -
  have b: "fst (begin_session ex_service (init_state None)) = Inr (JRoom (ex_room ''A''))"
    unfolding ex_service_def by code_simp
  have o: "xid (ex_room ''A'') \<notin> set proto_names"
    by (simp add: ex_room_def room_of_def proto_names_def)
  from trail_discipline[where srv = ex_service and ?s0.0 = None and v = "JRoom (ex_room ''A'')"] b o
  have t: "trail (snd (begin_session ex_service (init_state None))) = [Id ''A'']"
    by (auto simp: ex_room_def room_of_def)
  have f: "frontier (ex_room ''A'') (rooms ex_entered) = Some ''B''"
    unfolding ex_entered_def ex_service_def ex_init_def by code_simp
  have "case iteration ex_service (JRoom (ex_room ''A'')) ex_entered of
          Next v st' \<Rightarrow> v = JRoom (ex_room ''B'') | Halt e st' \<Rightarrow> False"
    unfolding ex_entered_def ex_service_def ex_init_def by code_simp
  then obtain st' where
    i: "iteration ex_service (JRoom (ex_room ''A'')) ex_entered = Next (JRoom (ex_room ''B'')) st'"
    by (auto split: flow.splits)
  have x: "xid (ex_room ''B'') = ''B''" by (simp add: ex_room_def room_of_def)
  from trail_discipline[where c = "ex_room ''A''" and st = ex_entered and x = "''B''"
         and srv = ex_service and r = "ex_room ''B''" and st' = st'] f i x
  have p: "trail st' = trail ex_entered @ [Rec (ex_room ''A''), Id ''B'']" by blast
  have g: "frontier (ex_room ''B'') (rooms ex_at_B) = None"
    unfolding ex_at_B_def ex_entered_def ex_service_def ex_init_def by code_simp
  from trail_discipline[where c = "ex_room ''B''" and st = ex_at_B and srv = ex_service] g
  have "\<exists>k pushed. trail (flow_state (iteration ex_service (JRoom (ex_room ''B'')) ex_at_B))
      = take k (trail ex_at_B) @ pushed" by blast
  with b o t f i p g show ?thesis by blast
qed

section \<open>Painting\<close>

text \<open>
  C1, evaluated. A fulfilled \<open>move\<close> paints the fetched room once, a rejected one
  paints nothing. \<open>begin\<close> chains \<open>cache\<close> only, so the initial fetch paints nothing: in
  the scenario \<open>A \<rightarrow> [B, C]\<close>, \<open>B \<rightarrow> [A]\<close>, \<open>C \<rightarrow> [A]\<close> the run sends five requests and
  paints four rooms, \<open>B\<close>, \<open>A\<close>, \<open>C\<close>, \<open>A\<close>, and in the graph of the single room \<open>A\<close> it
  paints none.
\<close>

theorem initial_room_not_painted:
  "painted (snd (begin_session srv st)) = painted st
   \<and> painted (snd (move srv x st)) =
       painted st @ (case fst (move srv x st) of Inr (JRoom r) \<Rightarrow> [r] | _ \<Rightarrow> [])
   \<and> map_option (\<lambda>(e, st). (e, painted st, length (requests st))) (main 10 ex_service ex_init)
       = Some (None, [ex_room ''B'', ex_room ''A'', ex_room ''C'', ex_room ''A''], 5)
   \<and> map_option (\<lambda>(e, st). (e, painted st, length (requests st))) (main 10 single_service ex_init)
       = Some (None, [], 1)"
proof -
  have "map_option (\<lambda>(e, st). (e, painted st, length (requests st))) (main 10 ex_service ex_init)
       = Some (None, [ex_room ''B'', ex_room ''A'', ex_room ''C'', ex_room ''A''], 5)"
    unfolding ex_service_def ex_init_def by code_simp
  moreover
  have "map_option (\<lambda>(e, st). (e, painted st, length (requests st))) (main 10 single_service ex_init)
       = Some (None, [], 1)"
    unfolding single_service_def ex_init_def by code_simp
  ultimately show ?thesis using move_painted[of srv x st] by (simp add: begin_requests)
qed

section \<open>Failing requests\<close>

text \<open>
  C3. When the request of a move or of the initial fetch fails, an alert is raised
  (\<open>Not found!\<close> for status 404), the promise is rejected, and \<open>rooms\<close> and \<open>trail\<close>
  are what they were when the request was sent.
\<close>

theorem failed_request_keeps_state:
  "(is_failure (fst (srv (server st) (init PUT (Some x) False))) \<longrightarrow>
      fst (move srv x st) = Inl SyntaxError
      \<and> rooms (snd (move srv x st)) = rooms st
      \<and> trail (snd (move srv x st)) = trail st
      \<and> (\<exists>a. alerts (snd (move srv x st)) = alerts st @ [a])
      \<and> (fst (srv (server st) (init PUT (Some x) False)) = NotOk 404 \<longrightarrow>
            alerts (snd (move srv x st)) = alerts st @ [AlertNotFound]))
   \<and> (is_failure (fst (srv (server st) (init GET None True))) \<longrightarrow>
      fst (begin_session srv st) = Inl SyntaxError
      \<and> rooms (snd (begin_session srv st)) = rooms st
      \<and> trail (snd (begin_session srv st)) = trail st
      \<and> (\<exists>a. alerts (snd (begin_session srv st)) = alerts st @ [a]))"
proof (intro conjI impI)
  assume f: "is_failure (fst (srv (server st) (init PUT (Some x) False)))"
  have m: "move srv x st = (Inl SyntaxError, snd (req srv PUT (Some x) False st))"
    using f by (rule move_failure)
  show "fst (move srv x st) = Inl SyntaxError" by (simp add: m)
  show "rooms (snd (move srv x st)) = rooms st" by (simp add: m req_fields)
  show "trail (snd (move srv x st)) = trail st" by (simp add: m req_fields)
  show "\<exists>a. alerts (snd (move srv x st)) = alerts st @ [a]"
    using req_failure(2)[of srv st PUT "Some x" False] f by (simp add: m)
  show "alerts (snd (move srv x st)) = alerts st @ [AlertNotFound]"
    if "fst (srv (server st) (init PUT (Some x) False)) = NotOk 404"
    using that by (simp add: m req_alert_404)
next
  assume f: "is_failure (fst (srv (server st) (init GET None True)))"
  have m: "begin_session srv st = (Inl SyntaxError, snd (req srv GET None True st))"
    using f by (rule begin_failure)
  show "fst (begin_session srv st) = Inl SyntaxError" by (simp add: m)
  show "rooms (snd (begin_session srv st)) = rooms st" by (simp add: m req_fields)
  show "trail (snd (begin_session srv st)) = trail st" by (simp add: m req_fields)
  show "\<exists>a. alerts (snd (begin_session srv st)) = alerts st @ [a]"
    using req_failure(2)[of srv st GET None True] f by (simp add: m)
qed

theorem failed_request_keeps_state_witness:
  "is_failure (fst (ex_service (server ex_entered) (init PUT (Some ''Z'') False))) \<and>
   fst (ex_service (server ex_entered) (init PUT (Some ''Z'') False)) = NotOk 404 \<and>
   fst (move ex_service ''Z'' ex_entered) = Inl SyntaxError \<and>
   rooms (snd (move ex_service ''Z'' ex_entered)) = rooms ex_entered \<and>
   trail (snd (move ex_service ''Z'' ex_entered)) = trail ex_entered \<and>
   alerts (snd (move ex_service ''Z'' ex_entered)) = alerts ex_entered @ [AlertNotFound] \<and>
   is_failure (fst (down_service (server down_entered) (init GET None True))) \<and>
   fst (begin_session down_service down_entered) = Inl SyntaxError \<and>
   rooms (snd (begin_session down_service down_entered)) = rooms down_entered \<and>
   trail (snd (begin_session down_service down_entered)) = trail down_entered"
proof -
  have n: "fst (ex_service (server ex_entered) (init PUT (Some ''Z'') False)) = NotOk 404"
    unfolding ex_entered_def ex_service_def ex_init_def by code_simp
  then have a: "is_failure (fst (ex_service (server ex_entered) (init PUT (Some ''Z'') False)))"
    by (simp add: is_failure_def)
  have b: "is_failure (fst (down_service (server down_entered) (init GET None True)))"
    by (simp add: is_failure_def down_service_def)
  from failed_request_keeps_state[where srv = ex_service and st = ex_entered and x = "''Z''"] a n
  have 1: "fst (move ex_service ''Z'' ex_entered) = Inl SyntaxError \<and>
   rooms (snd (move ex_service ''Z'' ex_entered)) = rooms ex_entered \<and>
   trail (snd (move ex_service ''Z'' ex_entered)) = trail ex_entered \<and>
   alerts (snd (move ex_service ''Z'' ex_entered)) = alerts ex_entered @ [AlertNotFound]"
    by blast
  from failed_request_keeps_state[where srv = down_service and st = down_entered] b
  have 2: "fst (begin_session down_service down_entered) = Inl SyntaxError \<and>
   rooms (snd (begin_session down_service down_entered)) = rooms down_entered \<and>
   trail (snd (begin_session down_service down_entered)) = trail down_entered"
    by blast
  from a n b 1 2 show ?thesis by blast
qed

text \<open>
  C9. Whenever a request fails, the catch handler of \<open>req\<close> raises its alert and returns
  \<open>undefined\<close>, \<open>JSON.parse\<close> throws on it, and nothing but the request and the alert
  has been recorded. \<open>begin\<close> and \<open>move\<close> are rejected with that error. When the initial
  fetch fails \<open>main\<close> ends with the rejection; when the move of a pass fails, to an
  \<open>UNKNOWN\<close> neighbour or back along the trail, the loop ends with the rejection in that
  very pass, whatever number of passes was still allowed: no request is sent again,
  and the final state is the one in which the request was rejected.
\<close>

theorem failure_is_fatal:
  "(is_failure (fst (srv (server st) (init m d reset))) \<longrightarrow>
      fst (req srv m d reset st) = JSON_parse None
      \<and> fst (req srv m d reset st) = Inl SyntaxError
      \<and> (\<exists>a. alerts (snd (req srv m d reset st)) = alerts st @ [a])
      \<and> requests (snd (req srv m d reset st)) = requests st @ [init m d reset]
      \<and> rooms (snd (req srv m d reset st)) = rooms st
      \<and> trail (snd (req srv m d reset st)) = trail st
      \<and> painted (snd (req srv m d reset st)) = painted st)
   \<and> (is_failure (fst (srv (server st) (init GET None True))) \<longrightarrow>
      begin_session srv st = (Inl SyntaxError, snd (req srv GET None True st))
      \<and> main n srv st = Some (Some SyntaxError, snd (req srv GET None True st)))
   \<and> (is_failure (fst (srv (server st) (init PUT (Some x) False))) \<longrightarrow>
      move srv x st = (Inl SyntaxError, snd (req srv PUT (Some x) False st)))
   \<and> (frontier c (rooms st) = Some y
       \<and> is_failure (fst (srv (server st) (init PUT (Some y) False))) \<longrightarrow>
      loop (Suc n) srv (JRoom c) st =
        Some (Some SyntaxError,
              snd (req srv PUT (Some y) False (st\<lparr>trail := trail st @ [Rec c]\<rparr>))))
   \<and> (frontier c (rooms st) = None \<and> trail st = rest @ e # skipped
       \<and> entry_xid e = Some b \<and> b \<in> set (see c) \<and> (\<forall>e'\<in>set skipped. \<not> adjacent c e')
       \<and> is_failure (fst (srv (server st) (init PUT (Some b) False))) \<longrightarrow>
      loop (Suc n) srv (JRoom c) st =
        Some (Some SyntaxError, snd (req srv PUT (Some b) False (st\<lparr>trail := rest\<rparr>))))"
proof (intro conjI impI)
  assume f: "is_failure (fst (srv (server st) (init m d reset)))"
  show "fst (req srv m d reset st) = Inl SyntaxError"
    using f by (rule req_failure(1))
  then show "fst (req srv m d reset st) = JSON_parse None"
    by (simp add: JSON_parse_def)
  show "\<exists>a. alerts (snd (req srv m d reset st)) = alerts st @ [a]"
    using f by (rule req_failure(2))
  show "requests (snd (req srv m d reset st)) = requests st @ [init m d reset]"
    "rooms (snd (req srv m d reset st)) = rooms st"
    "trail (snd (req srv m d reset st)) = trail st"
    "painted (snd (req srv m d reset st)) = painted st"
    by (simp_all add: req_fields)
next
  assume f: "is_failure (fst (srv (server st) (init GET None True)))"
  then show b: "begin_session srv st = (Inl SyntaxError, snd (req srv GET None True st))"
    by (rule begin_failure)
  show "main n srv st = Some (Some SyntaxError, snd (req srv GET None True st))"
    by (simp add: main_def b await_def)
next
  assume f: "is_failure (fst (srv (server st) (init PUT (Some x) False)))"
  then show "move srv x st = (Inl SyntaxError, snd (req srv PUT (Some x) False st))"
    by (rule move_failure)
next
  assume a: "frontier c (rooms st) = Some y
       \<and> is_failure (fst (srv (server st) (init PUT (Some y) False)))"
  let ?s1 = "st\<lparr>trail := trail st @ [Rec c]\<rparr>"
  from a have "is_failure (fst (srv (server ?s1) (init PUT (Some y) False)))" by simp
  then have "move srv y ?s1 = (Inl SyntaxError, snd (req srv PUT (Some y) False ?s1))"
    by (rule move_failure)
  with a show "loop (Suc n) srv (JRoom c) st =
        Some (Some SyntaxError, snd (req srv PUT (Some y) False ?s1))"
    by (simp add: iteration_forward await_def)
next
  assume a: "frontier c (rooms st) = None \<and> trail st = rest @ e # skipped
       \<and> entry_xid e = Some b \<and> b \<in> set (see c) \<and> (\<forall>e'\<in>set skipped. \<not> adjacent c e')
       \<and> is_failure (fst (srv (server st) (init PUT (Some b) False)))"
  let ?s1 = "st\<lparr>trail := rest\<rparr>"
  from a have bt: "backtrack srv c st = move srv b ?s1"
    by (intro backtrack_found) auto
  from a have "is_failure (fst (srv (server ?s1) (init PUT (Some b) False)))" by simp
  then have "move srv b ?s1 = (Inl SyntaxError, snd (req srv PUT (Some b) False ?s1))"
    by (rule move_failure)
  with a bt show "loop (Suc n) srv (JRoom c) st =
        Some (Some SyntaxError, snd (req srv PUT (Some b) False ?s1))"
    by (simp add: iteration_backtrack await_def)
qed

theorem failure_is_fatal_witness:
  "is_failure (fst (ex_service (server ex_entered) (init PUT (Some ''Z'') False))) \<and>
   move ex_service ''Z'' ex_entered
     = (Inl SyntaxError, snd (req ex_service PUT (Some ''Z'') False ex_entered)) \<and>
   rooms (snd (req ex_service PUT (Some ''Z'') False ex_entered)) = rooms ex_entered \<and>
   is_failure (fst (down_service (server down_entered) (init GET None True))) \<and>
   main 7 down_service down_entered
     = Some (Some SyntaxError, snd (req down_service GET None True down_entered)) \<and>
   frontier (ex_room ''A'') (rooms ex_entered) = Some ''B'' \<and>
   is_failure (fst (stale_service (server ex_entered) (init PUT (Some ''B'') False))) \<and>
   loop (Suc 3) stale_service (JRoom (ex_room ''A'')) ex_entered
     = Some (Some SyntaxError,
         snd (req stale_service PUT (Some ''B'') False
               (ex_entered\<lparr>trail := trail ex_entered @ [Rec (ex_room ''A'')]\<rparr>))) \<and>
   frontier (ex_room ''B'') (rooms ex_at_B) = None \<and>
   trail ex_at_B = [Id ''A''] @ Rec (ex_room ''A'') # [Id ''B''] \<and>
   is_failure (fst (dead_service (server ex_at_B) (init PUT (Some ''A'') False))) \<and>
   loop (Suc 3) dead_service (JRoom (ex_room ''B'')) ex_at_B
     = Some (Some SyntaxError,
         snd (req dead_service PUT (Some ''A'') False (ex_at_B\<lparr>trail := [Id ''A'']\<rparr>)))"
proof -
  have z: "is_failure (fst (ex_service (server ex_entered) (init PUT (Some ''Z'') False)))"
    unfolding ex_entered_def ex_service_def ex_init_def by code_simp
  have g: "is_failure (fst (down_service (server down_entered) (init GET None True)))"
    by (simp add: is_failure_def down_service_def)
  have f: "frontier (ex_room ''A'') (rooms ex_entered) = Some ''B''"
    unfolding ex_entered_def ex_service_def ex_init_def by code_simp
  have s: "is_failure (fst (stale_service (server ex_entered) (init PUT (Some ''B'') False)))"
    by (simp add: stale_service_def init_def is_failure_def)
  have h: "frontier (ex_room ''B'') (rooms ex_at_B) = None"
    unfolding ex_at_B_def ex_entered_def ex_service_def ex_init_def by code_simp
  have t: "trail ex_at_B = [Id ''A''] @ Rec (ex_room ''A'') # [Id ''B'']"
    unfolding ex_at_B_def ex_entered_def ex_service_def ex_init_def by code_simp
  have x: "entry_xid (Rec (ex_room ''A'')) = Some ''A''" "''A'' \<in> set (see (ex_room ''B''))"
    "\<forall>e'\<in>set [Id ''B'']. \<not> adjacent (ex_room ''B'') e'"
    by (simp_all add: entry_xid_def adjacent_def ex_room_def room_of_def ex_nbrs_def)
  have d: "is_failure (fst (dead_service (server ex_at_B) (init PUT (Some ''A'') False)))"
    by (simp add: is_failure_def dead_service_def)
  from failure_is_fatal[where srv = ex_service and st = ex_entered and x = "''Z''"
         and m = PUT and d = "Some ''Z''" and reset = False] z
  have 1: "move ex_service ''Z'' ex_entered
     = (Inl SyntaxError, snd (req ex_service PUT (Some ''Z'') False ex_entered))"
    "rooms (snd (req ex_service PUT (Some ''Z'') False ex_entered)) = rooms ex_entered"
    by blast+
  from failure_is_fatal[where srv = down_service and st = down_entered and n = 7] g
  have 2: "main 7 down_service down_entered
     = Some (Some SyntaxError, snd (req down_service GET None True down_entered))"
    by blast
  from failure_is_fatal[where srv = stale_service and st = ex_entered and c = "ex_room ''A''"
         and y = "''B''" and n = 3] f s
  have 3: "loop (Suc 3) stale_service (JRoom (ex_room ''A'')) ex_entered
     = Some (Some SyntaxError,
         snd (req stale_service PUT (Some ''B'') False
               (ex_entered\<lparr>trail := trail ex_entered @ [Rec (ex_room ''A'')]\<rparr>)))"
    by blast
  from failure_is_fatal[where srv = dead_service and st = ex_at_B and c = "ex_room ''B''"
         and rest = "[Id ''A'']" and e = "Rec (ex_room ''A'')" and skipped = "[Id ''B'']"
         and b = "''A''" and n = 3] h t x d
  have 4: "loop (Suc 3) dead_service (JRoom (ex_room ''B'')) ex_at_B
     = Some (Some SyntaxError,
         snd (req dead_service PUT (Some ''A'') False (ex_at_B\<lparr>trail := [Id ''A'']\<rparr>)))"
    by blast
  from z g f s h t d 1 2 3 4 show ?thesis by blast
qed

section \<open>Termination and the number of requests\<close>

text \<open>
  C4, as the code has it. The bound of \<open>2 \<cdot> E\<close> request round-trips fails: in the graph
  of the single room \<open>A \<rightarrow> []\<close> there is no edge, and the run sends one request, the
  initial fetch.
\<close>

theorem single_room_round_trips_counterexample:
  "main 10 single_service ex_init \<noteq> None
   \<and> round_trips (main 10 single_service ex_init) = 1
   \<and> card (comp_edges single_nbrs ''A'') = 0
   \<and> \<not> round_trips (main 10 single_service ex_init) \<le> 2 * card (comp_edges single_nbrs ''A'')"
proof -
  have a: "main 10 single_service ex_init \<noteq> None"
    unfolding single_service_def single_nbrs_def ex_init_def by code_simp
  have b: "round_trips (main 10 single_service ex_init) = 1"
    unfolding single_service_def single_nbrs_def ex_init_def by code_simp
  have c: "comp_edges single_nbrs ''A'' = {}"
    by (simp add: comp_edges_def single_nbrs_def)
  from a b c show ?thesis by simp
qed

text \<open>
  C4, amended. When the rooms reachable from the starting room are finitely many and
  the service follows the graph, the run of \<open>main\<close> ends, without error; it sends at
  most \<open>2 \<cdot> E\<close> requests of moves and hence, with the initial fetch, at most
  \<open>2 \<cdot> E + 1\<close> requests, where \<open>E\<close> is the number of edges of the reachable component.
\<close>

theorem exploration_terminates:
  fixes disp :: "room_id \<Rightarrow> 'g"
  assumes "finite (reachable nbrs s)"
  shows "\<exists>n st. main n (room_service nbrs disp s) (init_state None) = Some (None, st)
           \<and> length (filter is_put (requests st)) \<le> 2 * card (comp_edges nbrs s)
           \<and> length (requests st) \<le> 2 * card (comp_edges nbrs s) + 1"
proof (cases "s \<in> set proto_names")
  case True
  let ?srv = "room_service nbrs disp s"
  let ?i = "init_state None :: (room_id option, 'g) state"
  from walk_begin_inherited[OF True, of nbrs disp] obtain st where
    m: "main (Suc 0) ?srv ?i = Some (None, st)" and rq: "requests st = [init GET None True]"
    by blast
  have "length (filter is_put (requests st)) \<le> 2 * card (comp_edges nbrs s)
        \<and> length (requests st) \<le> 2 * card (comp_edges nbrs s) + 1"
    by (simp add: rq is_put_init)
  with m show ?thesis by blast
next
  case False
  let ?srv = "room_service nbrs disp s"
  let ?i = "init_state None :: (room_id option, 'g) state"
  let ?st0 = "snd (begin_session ?srv ?i)"
  let ?cur = "JRoom (room_of nbrs disp s)"
  have b: "fst (begin_session ?srv ?i) = Inr ?cur" using False by (intro walk_begin(1)) simp_all
  have inv0: "walk_inv nbrs disp s ?cur ?st0" using False by (intro walk_begin(2)) simp_all
  from walk_loop[OF assms inv0, of "Suc (weight nbrs s ?st0)"] obtain cur' st' where
    l: "loop (Suc (weight nbrs s ?st0)) ?srv ?cur ?st0 = Some (None, st')"
    and inv': "walk_inv nbrs disp s cur' st'"
    by auto
  have "main (Suc (weight nbrs s ?st0)) ?srv ?i = Some (None, st')"
    using l b by (simp add: main_def await_def del: loop.simps)
  with walk_inv_bound[OF assms inv'] show ?thesis by blast
qed

theorem exploration_terminates_witness:
  "finite (reachable ex_nbrs ''A'') \<and> card (comp_edges ex_nbrs ''A'') = 2 \<and>
   (\<exists>n st. main n ex_service ex_init = Some (None, st)
      \<and> length (filter is_put (requests st)) \<le> 4 \<and> length (requests st) \<le> 5)"
proof -
  let ?V = "{''A'', ''B'', ''C''}"
  have sub: "reachable ex_nbrs ''A'' \<subseteq> ?V"
    by (rule reachable_subset) (simp_all add: ex_nbrs_def)
  then have fin: "finite (reachable ex_nbrs ''A'')" by (rule finite_subset) simp
  have a: "''A'' \<in> reachable ex_nbrs ''A''" by (rule reachable_start)
  have b: "''B'' \<in> reachable ex_nbrs ''A''"
    by (rule reachable_step[OF a]) (simp add: ex_nbrs_def)
  have c: "''C'' \<in> reachable ex_nbrs ''A''"
    by (rule reachable_step[OF a]) (simp add: ex_nbrs_def)
  from sub a b c have r: "reachable ex_nbrs ''A'' = ?V" by blast
  have e: "comp_edges ex_nbrs ''A'' = {{''A'', ''B''}, {''A'', ''C''}}"
    by (auto simp: comp_edges_def r ex_nbrs_def)
  have k: "card (comp_edges ex_nbrs ''A'') = 2"
    by (simp add: e doubleton_eq_iff)
  from exploration_terminates[where nbrs = ex_nbrs and s = "''A''" and disp = "\<lambda>x. ()"] fin
  show ?thesis unfolding k ex_service_def ex_init_def by simp
qed

end
